theory Spec2Isabelle
  imports Main "HOL-Library.Word" "HOL-Library.Signed_Division"
begin

section \<open>ESP-C (power generation node): data model\<close>

text \<open>
  The node of \<^verbatim>\<open>esp_c/src/main.cpp\<close>. Its globals (and the two function-local statics
  of \<^verbatim>\<open>recvDataFromESP_B\<close>) are the fields of one record. Two fields stand for the
  world outside the program: \<open>serial2_rx\<close> holds the bytes waiting in the receive
  buffer of Serial2, oldest first, and \<open>trace\<close> lists every write the program has made
  to a pin, a PWM channel or a serial port, oldest first.

  On the ESP32 \<^verbatim>\<open>unsigned long\<close> has 32 bits, so the timers are \<open>32 word\<close> and
  \<^verbatim>\<open>millis() - stateTimer\<close> wraps around. \<^verbatim>\<open>int\<close> values are \<open>int\<close>: the program
  only stores in them what \<^verbatim>\<open>String::toInt\<close> returns (clamped to 32 bits below),
  small constants, and a step cursor that it sets to 1 when a sequence begins and that
  ends the sequence at 4.
\<close>

datatype SystemState = STATE_IDLE | STATE_STARTING_UP | STATE_RUNNING | STATE_SHUTTING_DOWN

datatype pin_level = LOW | HIGH

datatype event =
    DigitalWrite nat pin_level
  | LedcWrite int int
  | SerialOut string
  | Serial1Out string

record esp_c =
  currentState :: SystemState
  currentPowerLevel :: int
  previousPowerLevel :: int
  rod2_pos :: int
  rod3_pos :: int
  stateTimer :: "32 word"
  buzzerTimer :: "32 word"
  sequence_step :: int
  isBuzzerOn :: bool
  receivedChars :: "char list"
  newData :: bool
  lastUartSendToD :: "32 word"
  recvInProgress :: bool
  ndx :: nat
  serial2_rx :: string
  trace :: "event list"

definition BUZZER_PIN :: nat where "BUZZER_PIN = 21"

definition STEAM_HUMID_1_PIN :: nat where "STEAM_HUMID_1_PIN = 19"

definition STEAM_HUMID_2_PIN :: nat where "STEAM_HUMID_2_PIN = 18"

definition CONDENSOR_HUMID_PIN :: nat where "CONDENSOR_HUMID_PIN = 5"

definition COOLTOWER_HUMID_1_PIN :: nat where "COOLTOWER_HUMID_1_PIN = 2"

definition COOLTOWER_HUMID_2_PIN :: nat where "COOLTOWER_HUMID_2_PIN = 27"

definition RELAY_ON :: pin_level where "RELAY_ON = LOW"

definition RELAY_OFF :: pin_level where "RELAY_OFF = HIGH"

definition PWM_CH_STEAM_FAN :: int where "PWM_CH_STEAM_FAN = 0"

definition PWM_CH_TURBINE :: int where "PWM_CH_TURBINE = 1"

definition PWM_CH_CONDENSOR :: int where "PWM_CH_CONDENSOR = 2"

definition PWM_CH_COOLTOWER :: int where "PWM_CH_COOLTOWER = 3"

definition SEQUENCE_DELAY :: "32 word" where "SEQUENCE_DELAY = 5000"

definition BUZZER_INTERVAL :: "32 word" where "BUZZER_INTERVAL = 500"

definition UART_SEND_TO_D_INTERVAL :: "32 word" where "UART_SEND_TO_D_INTERVAL = 500"

definition START_MARKER :: char where "START_MARKER = CHR ''<''"

definition END_MARKER :: char where "END_MARKER = CHR ''>''"

definition MAX_DATA_LENGTH :: nat where "MAX_DATA_LENGTH = 50"

definition NUL :: char where "NUL = CHR 0x00"

section \<open>ESP-C: the frame decoder\<close>

text \<open>
  One pass of the body of the \<^verbatim>\<open>while\<close> loop of \<^verbatim>\<open>recvDataFromESP_B\<close> for the byte
  \<open>rc\<close> just read. \<open>ndx\<close> is a \<^verbatim>\<open>byte\<close>, hence the \<open>mod 256\<close>. The array write
  \<open>xs[i := v]\<close> does nothing when \<open>i\<close> is outside the list; the guard
  \<open>ndx < MAX_DATA_LENGTH - 1\<close> keeps the index inside an array of \<open>MAX_DATA_LENGTH\<close>
  cells (lemma \<open>recv_loop_buf_ok\<close> below).
\<close>

definition recv_step :: "esp_c \<Rightarrow> char \<Rightarrow> esp_c" where
  "recv_step s rc =
     (if recvInProgress s then
        (if rc \<noteq> END_MARKER then
           (if ndx s < MAX_DATA_LENGTH - 1
            then s\<lparr>receivedChars := (receivedChars s)[ndx s := rc],
                   ndx := (ndx s + 1) mod 256\<rparr>
            else s)
         else s\<lparr>receivedChars := (receivedChars s)[ndx s := NUL],
                recvInProgress := False, ndx := 0, newData := True\<rparr>)
      else if rc = START_MARKER then s\<lparr>recvInProgress := True\<rparr>
      else s)"

text \<open>
  The loop \<^verbatim>\<open>while (Serial2.available() > 0 && newData == false)\<close>, over the bytes
  waiting in Serial2. What it does not read stays in the port.
\<close>

fun recv_loop :: "esp_c \<Rightarrow> string \<Rightarrow> esp_c" where
  "recv_loop s [] = s\<lparr>serial2_rx := []\<rparr>"
| "recv_loop s (rc # rest) =
     (if newData s then s\<lparr>serial2_rx := rc # rest\<rparr>
      else recv_loop (recv_step s rc) rest)"

definition recvDataFromESP_B :: "esp_c \<Rightarrow> esp_c" where
  "recvDataFromESP_B s = recv_loop s (serial2_rx s)"

text \<open>The text a C function reads in a \<^verbatim>\<open>char\<close> array: the bytes before the first NUL.\<close>

definition c_str :: "char list \<Rightarrow> string" where
  "c_str buf = takeWhile (\<lambda>c. c \<noteq> NUL) buf"

text \<open>The state in which \<^verbatim>\<open>loop\<close> first runs: the initial values of the globals, which
  \<^verbatim>\<open>setup()\<close> leaves as they are, nothing waiting in Serial2, and a trace that starts
  after the writes of \<^verbatim>\<open>setup()\<close>.\<close>

definition init_esp_c :: esp_c where
  "init_esp_c = \<lparr>currentState = STATE_IDLE, currentPowerLevel = 0, previousPowerLevel = 0,
     rod2_pos = 0, rod3_pos = 0, stateTimer = 0, buzzerTimer = 0, sequence_step = 0,
     isBuzzerOn = False, receivedChars = replicate 50 NUL, newData = False,
     lastUartSendToD = 0, recvInProgress = False, ndx = 0, serial2_rx = [], trace = []\<rparr>"

text \<open>The buffer is an array of \<open>MAX_DATA_LENGTH\<close> cells and the index is inside it.\<close>

definition buf_ok :: "esp_c \<Rightarrow> bool" where
  "buf_ok s = (length (receivedChars s) = MAX_DATA_LENGTH \<and> ndx s < MAX_DATA_LENGTH)"

section \<open>The Arduino core's functions the nodes call\<close>

text \<open>
  These are not code of the repository: they are the ESP32 Arduino core's
  \<^verbatim>\<open>String\<close>, \<^verbatim>\<open>Print\<close> and \<^verbatim>\<open>map\<close>, and newlib's \<^verbatim>\<open>strtok\<close> and \<^verbatim>\<open>atol\<close>,
  written after their documented behaviour. A \<^verbatim>\<open>String\<close> is its list of characters;
  an index that the core returns as \<open>-1\<close> is \<open>None\<close> here.
\<close>

text \<open>\<^verbatim>\<open>String::indexOf(ch, fromIndex)\<close>: the first position of \<open>ch\<close> at or after
  \<open>fromIndex\<close>.\<close>

definition indexOf :: "char \<Rightarrow> nat \<Rightarrow> string \<Rightarrow> nat option" where
  "indexOf ch fromIndex str =
     (if ch \<in> set (drop fromIndex str)
      then Some (fromIndex + length (takeWhile (\<lambda>c. c \<noteq> ch) (drop fromIndex str)))
      else None)"

text \<open>\<^verbatim>\<open>String::substring(left, right)\<close> and \<^verbatim>\<open>String::substring(left)\<close>. The core
  swaps the two indices when \<open>left > right\<close> and cuts \<open>right\<close> at the length.\<close>

definition substring :: "nat \<Rightarrow> nat \<Rightarrow> string \<Rightarrow> string" where
  "substring left right str =
     (let l = min left right; r = max left right in take (r - l) (drop l str))"

definition substring_from :: "nat \<Rightarrow> string \<Rightarrow> string" where
  "substring_from left str = drop left str"

text \<open>\<^verbatim>\<open>atol\<close>, which \<^verbatim>\<open>String::toInt\<close> calls: white space, an optional sign, then the
  decimal digits up to the first other character; no digit gives 0. newlib's
  \<^verbatim>\<open>strtol\<close> returns \<^verbatim>\<open>LONG_MAX\<close> or \<^verbatim>\<open>LONG_MIN\<close> (32 bits) when the number does
  not fit.\<close>

definition isspace :: "char \<Rightarrow> bool" where
  "isspace c = (c = CHR '' '' \<or> (9 \<le> (of_char c :: nat) \<and> (of_char c :: nat) \<le> 13))"

definition isdigit :: "char \<Rightarrow> bool" where
  "isdigit c = (48 \<le> (of_char c :: nat) \<and> (of_char c :: nat) \<le> 57)"

fun digits_val :: "nat \<Rightarrow> string \<Rightarrow> nat" where
  "digits_val acc [] = acc"
| "digits_val acc (c # cs) =
     (if isdigit c then digits_val (acc * 10 + (of_char c - 48)) cs else acc)"

definition LONG_MAX :: int where "LONG_MAX = 2147483647"

definition LONG_MIN :: int where "LONG_MIN = - 2147483648"

definition atol :: "string \<Rightarrow> int" where
  "atol str =
     (let s1 = dropWhile isspace str;
          neg = (s1 \<noteq> [] \<and> hd s1 = CHR ''-'');
          s2 = (if s1 \<noteq> [] \<and> (hd s1 = CHR ''-'' \<or> hd s1 = CHR ''+'') then tl s1 else s1);
          n = int (digits_val 0 s2)
      in if neg then max LONG_MIN (- n) else min LONG_MAX n)"

definition toInt :: "string \<Rightarrow> int" where
  "toInt str = atol str"

text \<open>\<^verbatim>\<open>Print::print(long)\<close>: a minus sign for a negative number, then
  \<^verbatim>\<open>printNumber\<close>, which produces the decimal digits from the last to the first.\<close>

function printNumber :: "nat \<Rightarrow> string \<Rightarrow> string" where
  "printNumber n acc =
     (let acc' = char_of (48 + n mod 10) # acc
      in if n div 10 = 0 then acc' else printNumber (n div 10) acc')"
  by pat_completeness auto

termination
  by (relation "measure (\<lambda>(n, acc). n)") auto

declare printNumber.simps [simp del]

definition print_long :: "int \<Rightarrow> string" where
  "print_long n = (if n < 0 then CHR ''-'' # printNumber (nat (- n)) [] else printNumber (nat n) [])"

text \<open>\<^verbatim>\<open>map(x, in_min, in_max, out_min, out_max)\<close>, in C's truncating division.\<close>

definition arduino_map :: "int \<Rightarrow> int \<Rightarrow> int \<Rightarrow> int \<Rightarrow> int \<Rightarrow> int" where
  "arduino_map x in_min in_max out_min out_max =
     (if in_max - in_min = 0 then - 1
      else ((x - in_min) * (out_max - out_min)) sdiv (in_max - in_min) + out_min)"

text \<open>\<^verbatim>\<open>strtok(p, ";")\<close> on the text \<open>str\<close> not yet scanned: it skips the separators in
  front, and returns the token up to the next separator and the text after that
  separator; \<open>None\<close> is the \<^verbatim>\<open>NULL\<close> it returns when no token is left.\<close>

definition strtok_semi :: "string \<Rightarrow> (string \<times> string) option" where
  "strtok_semi str =
     (let s1 = dropWhile (\<lambda>c. c = CHR '';'') str
      in if s1 = [] then None
         else Some (takeWhile (\<lambda>c. c \<noteq> CHR '';'') s1,
                    drop 1 (dropWhile (\<lambda>c. c \<noteq> CHR '';'') s1)))"

section \<open>ESP-C: hardware and serial writes\<close>

definition emit :: "event \<Rightarrow> esp_c \<Rightarrow> esp_c" where
  "emit e s = s\<lparr>trace := trace s @ [e]\<rparr>"

definition digitalWrite :: "nat \<Rightarrow> pin_level \<Rightarrow> esp_c \<Rightarrow> esp_c" where
  "digitalWrite pin v = emit (DigitalWrite pin v)"

definition ledcWrite :: "int \<Rightarrow> int \<Rightarrow> esp_c \<Rightarrow> esp_c" where
  "ledcWrite channel duty = emit (LedcWrite channel duty)"

definition CRLF :: string where "CRLF = [CHR 0x0D, CHR 0x0A]"

definition Serial_print :: "string \<Rightarrow> esp_c \<Rightarrow> esp_c" where
  "Serial_print msg = emit (SerialOut msg)"

definition Serial_println :: "string \<Rightarrow> esp_c \<Rightarrow> esp_c" where
  "Serial_println msg = emit (SerialOut (msg @ CRLF))"

definition Serial1_print :: "string \<Rightarrow> esp_c \<Rightarrow> esp_c" where
  "Serial1_print msg = emit (Serial1Out msg)"

text \<open>A block of statements, run from the first to the last.\<close>

definition do_all :: "('s \<Rightarrow> 's) list \<Rightarrow> 's \<Rightarrow> 's" where
  "do_all stmts s = fold (\<lambda>stmt. stmt) stmts s"

definition setMotorPwm :: "int \<Rightarrow> int \<Rightarrow> esp_c \<Rightarrow> esp_c" where
  "setMotorPwm channel speed = ledcWrite channel (arduino_map speed 0 100 0 255)"

section \<open>ESP-C: the message parser\<close>

text \<open>The body of the \<^verbatim>\<open>while (token != NULL)\<close> loop of \<^verbatim>\<open>parseDataFromESP_B\<close> for one
  token (lines 101 to 107).\<close>

definition handle_pair :: "string \<Rightarrow> esp_c \<Rightarrow> esp_c" where
  "handle_pair dataPair s =
     (case indexOf (CHR '':'') 0 dataPair of
        None \<Rightarrow> s
      | Some colonIndex \<Rightarrow>
          (let key = substring 0 colonIndex dataPair;
               val = substring_from (colonIndex + 1) dataPair
           in if key = ''rod2'' then s\<lparr>rod2_pos := toInt val\<rparr>
              else if key = ''rod3'' then s\<lparr>rod3_pos := toInt val\<rparr>
              else s))"

lemma strtok_shorter:
  assumes "strtok_semi rest = Some (token, rest')"
  shows "length rest' < length rest"
proof -
  let ?s1 = "dropWhile (\<lambda>c. c = CHR '';'') rest"
  from assms have ne: "?s1 \<noteq> []"
    and r: "rest' = drop 1 (dropWhile (\<lambda>c. c \<noteq> CHR '';'') ?s1)"
    by (auto simp: strtok_semi_def Let_def split: if_splits)
  from ne obtain x xs where s1: "?s1 = x # xs" by (cases ?s1) auto
  have xne: "x \<noteq> CHR '';''"
    using hd_dropWhile [OF ne] s1 by simp
  have "length rest' \<le> length (dropWhile (\<lambda>c. c \<noteq> CHR '';'') ?s1)"
    using r by simp
  also have "\<dots> = length (dropWhile (\<lambda>c. c \<noteq> CHR '';'') xs)"
    using xne by (simp add: s1)
  also have "\<dots> \<le> length xs" by (rule length_dropWhile_le)
  also have "\<dots> < length (x # xs)" by simp
  also have "length (x # xs) \<le> length rest" using length_dropWhile_le [of "\<lambda>c. c = CHR '';''" rest] by (simp only: s1)
  finally show ?thesis .
qed

function parse_tokens :: "string \<Rightarrow> esp_c \<Rightarrow> esp_c" where
  "parse_tokens rest s =
     (case strtok_semi rest of
        None \<Rightarrow> s
      | Some (token, rest') \<Rightarrow> parse_tokens rest' (handle_pair token s))"
  by pat_completeness auto

termination
  by (relation "measure (\<lambda>(rest, s). length rest)") (auto dest: strtok_shorter)

declare parse_tokens.simps [simp del]

definition parseDataFromESP_B :: "esp_c \<Rightarrow> esp_c" where
  "parseDataFromESP_B s =
     (if newData s
      then (parse_tokens (c_str (receivedChars s)) s)\<lparr>newData := False\<rparr>
      else s)"

section \<open>ESP-C: the sequencer\<close>

text \<open>Lines 147 to 153 of \<^verbatim>\<open>loop\<close>: the power level of the two rod positions.\<close>

definition derivePowerLevel :: "int \<Rightarrow> int \<Rightarrow> int" where
  "derivePowerLevel rod2 rod3 =
     (if rod2 < 21 \<or> rod3 < 16 then 0
      else if rod2 \<ge> 41 \<and> rod3 \<ge> 31 then 2
      else 1)"

definition updateSystemOutputs :: "esp_c \<Rightarrow> esp_c" where
  "updateSystemOutputs s =
     (if currentState s \<noteq> STATE_RUNNING then s
      else if currentPowerLevel s = 1 then
        do_all [digitalWrite STEAM_HUMID_1_PIN RELAY_ON,
                digitalWrite STEAM_HUMID_2_PIN RELAY_OFF,
                digitalWrite CONDENSOR_HUMID_PIN RELAY_ON,
                digitalWrite COOLTOWER_HUMID_1_PIN RELAY_ON,
                digitalWrite COOLTOWER_HUMID_2_PIN RELAY_OFF,
                setMotorPwm PWM_CH_STEAM_FAN 50,
                setMotorPwm PWM_CH_TURBINE 40,
                setMotorPwm PWM_CH_CONDENSOR 60,
                setMotorPwm PWM_CH_COOLTOWER 60] s
      else if currentPowerLevel s = 2 then
        do_all [digitalWrite STEAM_HUMID_1_PIN RELAY_ON,
                digitalWrite STEAM_HUMID_2_PIN RELAY_ON,
                digitalWrite CONDENSOR_HUMID_PIN RELAY_ON,
                digitalWrite COOLTOWER_HUMID_1_PIN RELAY_ON,
                digitalWrite COOLTOWER_HUMID_2_PIN RELAY_ON,
                setMotorPwm PWM_CH_STEAM_FAN 100,
                setMotorPwm PWM_CH_TURBINE 100,
                setMotorPwm PWM_CH_CONDENSOR 100,
                setMotorPwm PWM_CH_COOLTOWER 100] s
      else s)"

definition turnEverythingOff :: "esp_c \<Rightarrow> esp_c" where
  "turnEverythingOff s =
     do_all [digitalWrite STEAM_HUMID_1_PIN RELAY_OFF,
             digitalWrite STEAM_HUMID_2_PIN RELAY_OFF,
             digitalWrite CONDENSOR_HUMID_PIN RELAY_OFF,
             digitalWrite COOLTOWER_HUMID_1_PIN RELAY_OFF,
             digitalWrite COOLTOWER_HUMID_2_PIN RELAY_OFF,
             digitalWrite BUZZER_PIN LOW,
             (\<lambda>s. s\<lparr>isBuzzerOn := False\<rparr>),
             setMotorPwm PWM_CH_STEAM_FAN 0,
             setMotorPwm PWM_CH_TURBINE 0,
             setMotorPwm PWM_CH_CONDENSOR 0,
             setMotorPwm PWM_CH_COOLTOWER 0] s"

definition runStartupSequence :: "esp_c \<Rightarrow> esp_c" where
  "runStartupSequence s =
     (if sequence_step s = 1 then
        do_all [Serial_println ''STARTUP (1/4): Steam Generator ON'',
                digitalWrite STEAM_HUMID_1_PIN RELAY_ON,
                setMotorPwm PWM_CH_STEAM_FAN 50] s
      else if sequence_step s = 2 then
        do_all [Serial_println ''STARTUP (2/4): Turbine ON'',
                setMotorPwm PWM_CH_TURBINE 40] s
      else if sequence_step s = 3 then
        do_all [Serial_println ''STARTUP (3/4): Condensor ON'',
                digitalWrite CONDENSOR_HUMID_PIN RELAY_ON,
                setMotorPwm PWM_CH_CONDENSOR 60] s
      else if sequence_step s = 4 then
        do_all [Serial_println ''STARTUP (4/4): Cooling Tower ON'',
                digitalWrite COOLTOWER_HUMID_1_PIN RELAY_ON,
                setMotorPwm PWM_CH_COOLTOWER 60,
                (\<lambda>s. s\<lparr>currentState := STATE_RUNNING\<rparr>),
                Serial_println ''STARTUP SEQUENCE COMPLETE! -> Entering RUNNING State'',
                updateSystemOutputs] s
      else s)"

definition runShutdownSequence :: "esp_c \<Rightarrow> esp_c" where
  "runShutdownSequence s =
     (if sequence_step s = 1 then
        Serial_println ''SHUTDOWN (1/4): Steam Generator OFF'' s
      else if sequence_step s = 2 then
        do_all [Serial_println ''SHUTDOWN (2/4): Turbine OFF'',
                setMotorPwm PWM_CH_TURBINE 0] s
      else if sequence_step s = 3 then
        do_all [Serial_println ''SHUTDOWN (3/4): Condensor OFF'',
                setMotorPwm PWM_CH_CONDENSOR 0] s
      else if sequence_step s = 4 then
        do_all [Serial_println ''SHUTDOWN (4/4): Cooling Tower OFF'',
                setMotorPwm PWM_CH_COOLTOWER 0,
                (\<lambda>s. s\<lparr>currentState := STATE_IDLE\<rparr>),
                Serial_println ''SHUTDOWN SEQUENCE COMPLETE! -> Entering IDLE State''] s
      else s)"

definition sendDataToEspD :: "esp_c \<Rightarrow> esp_c" where
  "sendDataToEspD s =
     do_all [Serial1_print [START_MARKER],
             Serial1_print ''pwr:'',
             Serial1_print (print_long (currentPowerLevel s)),
             Serial1_print [END_MARKER],
             Serial1_print [CHR 0x0A]] s"

text \<open>
  What one pass of \<^verbatim>\<open>loop\<close> receives from outside: the bytes that arrived on Serial2
  since the pass before, and the value of each \<^verbatim>\<open>millis()\<close> call the pass can make.
  The calls are told apart by their place in \<^verbatim>\<open>loop\<close>: the sequencer's test of the
  elapsed time (lines 175, 210), its time stamp (lines 161, 170, 177, 186, 212), the
  buzzer's test and stamp (lines 196, 197) and the sender's (lines 219, 220). No pass
  makes two calls of the same kind.
\<close>

record tick =
  arrived :: string
  t_check :: "32 word"
  t_stamp :: "32 word"
  t_buzzer_check :: "32 word"
  t_buzzer_stamp :: "32 word"
  t_send_check :: "32 word"
  t_send_stamp :: "32 word"

text \<open>Lines 168 to 172, and again 184 to 188: the entry into the shutdown.\<close>

definition beginShutdown :: "tick \<Rightarrow> esp_c \<Rightarrow> esp_c" where
  "beginShutdown i s =
     do_all [(\<lambda>s. s\<lparr>currentState := STATE_SHUTTING_DOWN\<rparr>),
             (\<lambda>s. s\<lparr>sequence_step := 1\<rparr>),
             (\<lambda>s. s\<lparr>stateTimer := t_stamp i\<rparr>),
             turnEverythingOff,
             runShutdownSequence] s"

text \<open>Lines 195 to 206: the alarm buzzer of the state Running.\<close>

definition buzzer :: "tick \<Rightarrow> esp_c \<Rightarrow> esp_c" where
  "buzzer i s =
     (if currentPowerLevel s = 2 \<and> rod2_pos s \<ge> 70 \<and> rod3_pos s \<ge> 55 then
        (if t_buzzer_check i - buzzerTimer s > BUZZER_INTERVAL then
           do_all [(\<lambda>s. s\<lparr>buzzerTimer := t_buzzer_stamp i\<rparr>),
                   (\<lambda>s. s\<lparr>isBuzzerOn := \<not> isBuzzerOn s\<rparr>),
                   (\<lambda>s. digitalWrite BUZZER_PIN (if isBuzzerOn s then HIGH else LOW) s)] s
         else s)
      else
        (if isBuzzerOn s then
           do_all [(\<lambda>s. s\<lparr>isBuzzerOn := False\<rparr>), digitalWrite BUZZER_PIN LOW] s
         else s))"

text \<open>The \<^verbatim>\<open>switch (currentState)\<close> of \<^verbatim>\<open>loop\<close>, lines 156 to 216.\<close>

definition stateMachine :: "tick \<Rightarrow> esp_c \<Rightarrow> esp_c" where
  "stateMachine i s =
     (case currentState s of
        STATE_IDLE \<Rightarrow>
          (if currentPowerLevel s > 0 then
             do_all [(\<lambda>s. s\<lparr>currentState := STATE_STARTING_UP\<rparr>),
                     (\<lambda>s. s\<lparr>sequence_step := 1\<rparr>),
                     (\<lambda>s. s\<lparr>stateTimer := t_stamp i\<rparr>),
                     runStartupSequence] s
           else s)
      | STATE_STARTING_UP \<Rightarrow>
          (if currentPowerLevel s = 0 then beginShutdown i s
           else if t_check i - stateTimer s > SEQUENCE_DELAY then
             do_all [(\<lambda>s. s\<lparr>sequence_step := sequence_step s + 1\<rparr>),
                     (\<lambda>s. s\<lparr>stateTimer := t_stamp i\<rparr>),
                     runStartupSequence] s
           else s)
      | STATE_RUNNING \<Rightarrow>
          (if currentPowerLevel s = 0 then beginShutdown i s
           else
             do_all [(\<lambda>s. if currentPowerLevel s \<noteq> previousPowerLevel s then
                            do_all [Serial_print ''Power Level changed to: '',
                                    Serial_println (print_long (currentPowerLevel s)),
                                    updateSystemOutputs] s
                          else s),
                     buzzer i] s)
      | STATE_SHUTTING_DOWN \<Rightarrow>
          (if t_check i - stateTimer s > SEQUENCE_DELAY then
             do_all [(\<lambda>s. s\<lparr>sequence_step := sequence_step s + 1\<rparr>),
                     (\<lambda>s. s\<lparr>stateTimer := t_stamp i\<rparr>),
                     runShutdownSequence] s
           else s))"

text \<open>Lines 143 to 153 of \<^verbatim>\<open>loop\<close>: the decoder, the parser and the power level. The
  bytes that arrived join the ones still waiting in Serial2 before the decoder runs.\<close>

definition sense :: "tick \<Rightarrow> esp_c \<Rightarrow> esp_c" where
  "sense i s =
     do_all [(\<lambda>s. s\<lparr>serial2_rx := serial2_rx s @ arrived i\<rparr>),
             recvDataFromESP_B,
             parseDataFromESP_B,
             (\<lambda>s. s\<lparr>previousPowerLevel := currentPowerLevel s\<rparr>),
             (\<lambda>s. s\<lparr>currentPowerLevel := derivePowerLevel (rod2_pos s) (rod3_pos s)\<rparr>)] s"

text \<open>Lines 219 to 222: the periodic message to ESP-D.\<close>

definition broadcast :: "tick \<Rightarrow> esp_c \<Rightarrow> esp_c" where
  "broadcast i s =
     (if t_send_check i - lastUartSendToD s > UART_SEND_TO_D_INTERVAL then
        do_all [(\<lambda>s. s\<lparr>lastUartSendToD := t_send_stamp i\<rparr>), sendDataToEspD] s
      else s)"

text \<open>One pass of \<^verbatim>\<open>loop\<close> (the \<^verbatim>\<open>delay(10)\<close> at its end changes no variable).\<close>

definition loop :: "tick \<Rightarrow> esp_c \<Rightarrow> esp_c" where
  "loop i s = do_all [sense i, stateMachine i, broadcast i] s"

text \<open>The states after each pass of a run of \<^verbatim>\<open>loop\<close>, the first pass first.\<close>

fun run :: "esp_c \<Rightarrow> tick list \<Rightarrow> esp_c list" where
  "run s [] = []"
| "run s (i # is) = loop i s # run (loop i s) is"

section \<open>The visualizer nodes ESP-E, ESP-F and ESP-G: the parsers\<close>

text \<open>
  \<^verbatim>\<open>parseData\<close> of the three nodes. Each stores into its status variable, which the
  model passes in and returns; the cast \<^verbatim>\<open>(PumpStatus)value.toInt()\<close> keeps the
  number, so the status is an \<open>int\<close>. The first two statements of each drop the
  first and the last character of the line (\<^verbatim>\<open>String::remove\<close> does nothing on an empty
  text).
\<close>

definition strip_markers :: "string \<Rightarrow> string" where
  "strip_markers data = (let d1 = drop 1 data in take (length d1 - 1) d1)"

text \<open>The \<^verbatim>\<open>if (colonIndex != -1)\<close> block that the three parsers share, up to the
  comparison of the key: the key and the number of a pair, when it has a colon.\<close>

definition split_pair :: "string \<Rightarrow> (string \<times> int) option" where
  "split_pair pair =
     (case indexOf (CHR '':'') 0 pair of
        None \<Rightarrow> None
      | Some colonIndex \<Rightarrow>
          Some (substring 0 colonIndex pair, toInt (substring_from (colonIndex + 1) pair)))"

lemma takeWhile_shorter: "x \<in> set xs \<Longrightarrow> \<not> P x \<Longrightarrow> length (takeWhile P xs) < length xs"
  by (induction xs) auto

lemma indexOf_bounds:
  assumes "indexOf ch fromIndex str = Some k"
  shows "fromIndex \<le> k \<and> k < length str"
proof -
  from assms have mem: "ch \<in> set (drop fromIndex str)"
    and k: "k = fromIndex + length (takeWhile (\<lambda>c. c \<noteq> ch) (drop fromIndex str))"
    by (auto simp: indexOf_def split: if_splits)
  from mem have "length (takeWhile (\<lambda>c. c \<noteq> ch) (drop fromIndex str)) < length (drop fromIndex str)"
    by (rule takeWhile_shorter) simp
  with k show ?thesis by auto
qed

text \<open>ESP-E, lines 62 to 80: the loop over the pairs that end in a semicolon. The
  status is overwritten at every pair whose key is \<open>pump1\<close>, and the loop goes on.\<close>

function scan_E :: "string \<Rightarrow> nat \<Rightarrow> int \<Rightarrow> int" where
  "scan_E data lastIndex status =
     (case indexOf (CHR '';'') lastIndex data of
        None \<Rightarrow> status
      | Some separatorIndex \<Rightarrow>
          scan_E data (separatorIndex + 1)
            (case split_pair (substring lastIndex separatorIndex data) of
               None \<Rightarrow> status
             | Some (key, v) \<Rightarrow> if key = ''pump1'' then v else status))"
  by pat_completeness auto

termination
  by (relation "measure (\<lambda>(data, lastIndex, status). length data - lastIndex)")
     (auto dest: indexOf_bounds)

declare scan_E.simps [simp del]

definition parseData_E :: "string \<Rightarrow> int \<Rightarrow> int" where
  "parseData_E data pumpPrimaryStatus = scan_E (strip_markers data) 0 pumpPrimaryStatus"

text \<open>ESP-F, lines 60 to 78: the same loop, but a pair whose key is \<open>pump2\<close> ends the
  function (\<^verbatim>\<open>return\<close>).\<close>

function scan_F :: "string \<Rightarrow> nat \<Rightarrow> int \<Rightarrow> int" where
  "scan_F data lastIndex status =
     (case indexOf (CHR '';'') lastIndex data of
        None \<Rightarrow> status
      | Some separatorIndex \<Rightarrow>
          (case split_pair (substring lastIndex separatorIndex data) of
             None \<Rightarrow> scan_F data (separatorIndex + 1) status
           | Some (key, v) \<Rightarrow>
               if key = ''pump2'' then v else scan_F data (separatorIndex + 1) status))"
  by pat_completeness auto

termination
  by (relation "measure (\<lambda>(data, lastIndex, status). length data - lastIndex)")
     (auto dest: indexOf_bounds)

declare scan_F.simps [simp del]

definition parseData_F :: "string \<Rightarrow> int \<Rightarrow> int" where
  "parseData_F data activePumpStatus = scan_F (strip_markers data) 0 activePumpStatus"

text \<open>ESP-G, lines 60 to 88: the loop of ESP-F with the key \<open>pump3\<close>, again with the
  \<^verbatim>\<open>return\<close> at the first match; when the loop ends without one, the text after the
  last semicolon is looked at as one more pair.\<close>

function scan_G :: "string \<Rightarrow> nat \<Rightarrow> int \<Rightarrow> int" where
  "scan_G data lastIndex status =
     (case indexOf (CHR '';'') lastIndex data of
        None \<Rightarrow>
          (case split_pair (substring_from lastIndex data) of
             None \<Rightarrow> status
           | Some (key, v) \<Rightarrow> if key = ''pump3'' then v else status)
      | Some separatorIndex \<Rightarrow>
          (case split_pair (substring lastIndex separatorIndex data) of
             None \<Rightarrow> scan_G data (separatorIndex + 1) status
           | Some (key, v) \<Rightarrow>
               if key = ''pump3'' then v else scan_G data (separatorIndex + 1) status))"
  by pat_completeness auto

termination
  by (relation "measure (\<lambda>(data, lastIndex, status). length data - lastIndex)")
     (auto dest: indexOf_bounds)

declare scan_G.simps [simp del]

definition parseData_G :: "string \<Rightarrow> int \<Rightarrow> int" where
  "parseData_G data activePumpStatus = scan_G (strip_markers data) 0 activePumpStatus"

section \<open>ESP-E: the animation loop\<close>

text \<open>
  The globals of \<^verbatim>\<open>ESP_E_Aliran_Primer/src/main.cpp\<close>, and \<open>led_writes\<close>: every
  \<^verbatim>\<open>ledcWrite(channel, duty)\<close> the node has made, oldest first.
\<close>

record esp_e =
  pumpPrimaryStatus :: int
  uartBuffer :: string
  newDataAvailable :: bool
  lastAnimationTime :: "32 word"
  animationSpeedDelay :: int
  masterPosition :: int
  led_writes :: "(int \<times> nat) list"

definition NUM_LEDS :: int where "NUM_LEDS = 16"

definition NUM_ANIMATION_BLOCKS :: int where "NUM_ANIMATION_BLOCKS = 4"

definition LEDS_PER_BLOCK :: int where "LEDS_PER_BLOCK = 4"

definition brightnessLevels :: "nat list" where "brightnessLevels = [10, 80, 150, 255]"

definition init_esp_e :: esp_e where
  "init_esp_e = \<lparr>pumpPrimaryStatus = 0, uartBuffer = [], newDataAvailable = False,
     lastAnimationTime = 0, animationSpeedDelay = 1000, masterPosition = 0, led_writes = []\<rparr>"

text \<open>What one pass of ESP-E's \<^verbatim>\<open>loop\<close> receives: the line
  \<^verbatim>\<open>Serial2.readStringUntil('\n')\<close> returned when bytes were available, and the values
  of the two \<^verbatim>\<open>millis()\<close> calls (lines 163 and 164).\<close>

record tick_e =
  line_read :: "string option"
  e_check :: "32 word"
  e_stamp :: "32 word"

definition startsWith :: "string \<Rightarrow> string \<Rightarrow> bool" where
  "startsWith str pre = (take (length pre) str = pre)"

definition endsWith :: "string \<Rightarrow> string \<Rightarrow> bool" where
  "endsWith str suf = (length suf \<le> length str \<and> drop (length str - length suf) str = suf)"

text \<open>\<^verbatim>\<open>drawLedBlockToBuffer\<close>; \<open>smod\<close> is C's \<^verbatim>\<open>%\<close>.\<close>

definition drawLedBlockToBuffer :: "int \<Rightarrow> nat list \<Rightarrow> nat list" where
  "drawLedBlockToBuffer startPos buffer =
     fold (\<lambda>i buf. buf[nat ((startPos + int i) smod NUM_LEDS) := brightnessLevels ! i])
       [0 ..< nat LEDS_PER_BLOCK] buffer"

text \<open>Lines 169 to 180: the next frame, drawn into a zeroed buffer, then written to the
  sixteen channels.\<close>

definition nextLedState :: "int \<Rightarrow> nat list" where
  "nextLedState pos =
     fold (\<lambda>i buf. drawLedBlockToBuffer ((pos + int i * LEDS_PER_BLOCK) smod NUM_LEDS) buf)
       [0 ..< nat NUM_ANIMATION_BLOCKS] (replicate (nat NUM_LEDS) 0)"

definition write_leds :: "nat list \<Rightarrow> esp_e \<Rightarrow> esp_e" where
  "write_leds buf s = s\<lparr>led_writes := led_writes s @ map (\<lambda>i. (int i, buf ! i)) [0 ..< nat NUM_LEDS]\<rparr>"

text \<open>Lines 121 to 133 of ESP-E's \<^verbatim>\<open>loop\<close>: the line read from Serial2, if any, is
  parsed when it starts with \<open><\<close> and ends with \<open>>\<close>, and dropped.\<close>

definition listen_E :: "tick_e \<Rightarrow> esp_e \<Rightarrow> esp_e" where
  "listen_E i s0 =
     (let s1 = (case line_read i of
                  None \<Rightarrow> s0
                | Some l \<Rightarrow> s0\<lparr>uartBuffer := l, newDataAvailable := True\<rparr>)
      in if newDataAvailable s1 then
           (if startsWith (uartBuffer s1) ''<'' \<and> endsWith (uartBuffer s1) ''>''
            then s1\<lparr>pumpPrimaryStatus := parseData_E (uartBuffer s1) (pumpPrimaryStatus s1)\<rparr>
            else s1)\<lparr>uartBuffer := [], newDataAvailable := False\<rparr>
         else s1)"

text \<open>Lines 136 to 187: the \<^verbatim>\<open>switch\<close> on the pump status and the animation. A status
  outside 0 to 3 matches no \<^verbatim>\<open>case\<close> and keeps the delay. The delay is an \<^verbatim>\<open>int\<close>
  compared with an \<^verbatim>\<open>unsigned long\<close>, so it is converted to 32 bits.\<close>

definition animate_E :: "tick_e \<Rightarrow> esp_e \<Rightarrow> esp_e" where
  "animate_E i s2 =
     (if pumpPrimaryStatus s2 = 0 then
        (if masterPosition s2 \<noteq> - 1
         then (write_leds (replicate (nat NUM_LEDS) 0) s2)\<lparr>masterPosition := - 1\<rparr>
         else s2)
      else
        (let s3 = (if pumpPrimaryStatus s2 = 1 then s2\<lparr>animationSpeedDelay := 500\<rparr>
                   else if pumpPrimaryStatus s2 = 2 then s2\<lparr>animationSpeedDelay := 200\<rparr>
                   else if pumpPrimaryStatus s2 = 3 then s2\<lparr>animationSpeedDelay := 600\<rparr>
                   else s2);
             s4 = (if masterPosition s3 = - 1 then s3\<lparr>masterPosition := 0\<rparr> else s3)
         in if e_check i - lastAnimationTime s4 \<ge> word_of_int (animationSpeedDelay s4) then
              (let s5 = write_leds (nextLedState (masterPosition s4))
                          (s4\<lparr>lastAnimationTime := e_stamp i\<rparr>);
                   s6 = s5\<lparr>masterPosition := masterPosition s5 + 1\<rparr>
               in if masterPosition s6 \<ge> NUM_LEDS then s6\<lparr>masterPosition := 0\<rparr> else s6)
            else s4))"

text \<open>One pass of ESP-E's \<^verbatim>\<open>loop\<close>.\<close>

definition loop_E :: "tick_e \<Rightarrow> esp_e \<Rightarrow> esp_e" where
  "loop_E i s = animate_E i (listen_E i s)"

fun run_E :: "esp_e \<Rightarrow> tick_e list \<Rightarrow> esp_e list" where
  "run_E s [] = []"
| "run_E s (i # is) = loop_E i s # run_E (loop_E i s) is"

section \<open>The terms of the claims\<close>

text \<open>
  The definitions below are not code of the nodes. They name what the theorems speak
  about: parts of the state, the writes of a pass or of a run, the pieces of a payload,
  and the states and passes used as examples.
\<close>

subsection \<open>ESP-C: what each part of the loop leaves alone\<close>

text \<open>The variables of the sequencer; the decoder and the parser never write them.\<close>

definition ctl :: "esp_c \<Rightarrow> SystemState \<times> int \<times> int \<times> 32 word \<times> 32 word \<times> int \<times> bool \<times> 32 word \<times> event list" where
  "ctl s = (currentState s, currentPowerLevel s, previousPowerLevel s, stateTimer s,
            buzzerTimer s, sequence_step s, isBuzzerOn s, lastUartSendToD s, trace s)"

text \<open>The state after the decoder and the parser of one pass.\<close>

definition received :: "tick \<Rightarrow> esp_c \<Rightarrow> esp_c" where
  "received i s = parseDataFromESP_B (recvDataFromESP_B (s\<lparr>serial2_rx := serial2_rx s @ arrived i\<rparr>))"

text \<open>The buffer and the variables of the decoder, and the receive side of the port;
  the parser reads the buffer and writes none of them.\<close>

definition decoder_vars :: "esp_c \<Rightarrow> char list \<times> nat \<times> bool \<times> string" where
  "decoder_vars s = (receivedChars s, ndx s, recvInProgress s, serial2_rx s)"

subsection \<open>ESP-C: the writes of each procedure\<close>

text \<open>The writes of \<^verbatim>\<open>updateSystemOutputs\<close> for a power level: the relays of the steam
  generator (pins 19, 18), the condensor (5) and the cooling tower (2, 27), then the
  duties of the four PWM channels.\<close>

definition steady_profile :: "int \<Rightarrow> event list" where
  "steady_profile level =
     (if level = 1 then
        [DigitalWrite 19 LOW, DigitalWrite 18 HIGH, DigitalWrite 5 LOW, DigitalWrite 2 LOW,
         DigitalWrite 27 HIGH, LedcWrite 0 127, LedcWrite 1 102, LedcWrite 2 153, LedcWrite 3 153]
      else if level = 2 then
        [DigitalWrite 19 LOW, DigitalWrite 18 LOW, DigitalWrite 5 LOW, DigitalWrite 2 LOW,
         DigitalWrite 27 LOW, LedcWrite 0 255, LedcWrite 1 255, LedcWrite 2 255, LedcWrite 3 255]
      else [])"

text \<open>The writes of \<^verbatim>\<open>turnEverythingOff\<close>: every relay off (\<open>HIGH\<close>), the buzzer off,
  every motor at duty 0.\<close>

definition all_off :: "event list" where
  "all_off =
     [DigitalWrite 19 HIGH, DigitalWrite 18 HIGH, DigitalWrite 5 HIGH, DigitalWrite 2 HIGH,
      DigitalWrite 27 HIGH, DigitalWrite 21 LOW,
      LedcWrite 0 0, LedcWrite 1 0, LedcWrite 2 0, LedcWrite 3 0]"

text \<open>The writes of the four staged actions of the startup, without the steady profile
  that follows the fourth.\<close>

definition startup_stage :: "int \<Rightarrow> event list" where
  "startup_stage k =
     (if k = 1 then [SerialOut (''STARTUP (1/4): Steam Generator ON'' @ CRLF),
                     DigitalWrite 19 LOW, LedcWrite 0 127]
      else if k = 2 then [SerialOut (''STARTUP (2/4): Turbine ON'' @ CRLF), LedcWrite 1 102]
      else if k = 3 then [SerialOut (''STARTUP (3/4): Condensor ON'' @ CRLF),
                          DigitalWrite 5 LOW, LedcWrite 2 153]
      else if k = 4 then [SerialOut (''STARTUP (4/4): Cooling Tower ON'' @ CRLF),
                          DigitalWrite 2 LOW, LedcWrite 3 153,
                          SerialOut (''STARTUP SEQUENCE COMPLETE! -> Entering RUNNING State'' @ CRLF)]
      else [])"

definition shutdown_stage :: "int \<Rightarrow> event list" where
  "shutdown_stage k =
     (if k = 1 then [SerialOut (''SHUTDOWN (1/4): Steam Generator OFF'' @ CRLF)]
      else if k = 2 then [SerialOut (''SHUTDOWN (2/4): Turbine OFF'' @ CRLF), LedcWrite 1 0]
      else if k = 3 then [SerialOut (''SHUTDOWN (3/4): Condensor OFF'' @ CRLF), LedcWrite 2 0]
      else if k = 4 then [SerialOut (''SHUTDOWN (4/4): Cooling Tower OFF'' @ CRLF), LedcWrite 3 0,
                          SerialOut (''SHUTDOWN SEQUENCE COMPLETE! -> Entering IDLE State'' @ CRLF)]
      else [])"

text \<open>The bytes \<^verbatim>\<open>sendDataToEspD\<close> prints on Serial1, print by print.\<close>

definition status_frame :: "int \<Rightarrow> event list" where
  "status_frame level =
     [Serial1Out ''<'', Serial1Out ''pwr:'', Serial1Out (print_long level), Serial1Out ''>'',
      Serial1Out [CHR 0x0A]]"

text \<open>What lines 191 to 194, the part of the state Running before the buzzer, add to
  the trace (lemma \<open>stateMachine_eq\<close>).\<close>

definition reapply :: "esp_c \<Rightarrow> esp_c" where
  "reapply s =
     (if currentPowerLevel s \<noteq> previousPowerLevel s
      then s\<lparr>trace := trace s @ [SerialOut ''Power Level changed to: '',
                                  SerialOut (print_long (currentPowerLevel s) @ CRLF)]
                               @ (if currentState s = STATE_RUNNING
                                  then steady_profile (currentPowerLevel s) else [])\<rparr>
      else s)"

text \<open>The rod positions and the two power levels, which \<open>sense\<close> alone writes.\<close>

definition readings :: "esp_c \<Rightarrow> int \<times> int \<times> int \<times> int" where
  "readings s = (rod2_pos s, rod3_pos s, currentPowerLevel s, previousPowerLevel s)"

subsection \<open>ESP-C: what one pass writes\<close>

text \<open>The writes of the pass of \<open>loop\<close> that starts in \<open>s\<close>, and those of them that are
  not the periodic message on Serial1.\<close>

definition new_events :: "tick \<Rightarrow> esp_c \<Rightarrow> event list" where
  "new_events i s = drop (length (trace s)) (trace (loop i s))"

definition is_serial1 :: "event \<Rightarrow> bool" where
  "is_serial1 e = (case e of Serial1Out b \<Rightarrow> True | _ \<Rightarrow> False)"

definition local_events :: "tick \<Rightarrow> esp_c \<Rightarrow> event list" where
  "local_events i s = filter (\<lambda>e. \<not> is_serial1 e) (new_events i s)"

subsection \<open>ESP-C: the startup as a run\<close>

text \<open>
  The staged actions of the startup that a list of writes holds, told by the line each
  of them prints first; the staged actions of a run, each with the pass that issued it;
  and the writes of a run other than the periodic message.
\<close>

definition stages_in :: "event list \<Rightarrow> int list" where
  "stages_in evs = filter (\<lambda>k. hd (startup_stage k) \<in> set evs) [1, 2, 3, 4]"

fun startup_log :: "esp_c \<Rightarrow> tick list \<Rightarrow> (int \<times> tick) list" where
  "startup_log s [] = []"
| "startup_log s (i # is) = map (\<lambda>k. (k, i)) (stages_in (local_events i s)) @ startup_log (loop i s) is"

fun run_events :: "esp_c \<Rightarrow> tick list \<Rightarrow> event list" where
  "run_events s [] = []"
| "run_events s (i # is) = local_events i s @ run_events (loop i s) is"

text \<open>Between two staged actions that follow each other, the clock read by the test of
  the later pass is more than \<open>SEQUENCE_DELAY\<close> past the time stamp of the earlier one.\<close>

fun spaced :: "(int \<times> tick) list \<Rightarrow> bool" where
  "spaced ((k, i) # (k', i') # r) =
     (SEQUENCE_DELAY < t_check i' - t_stamp i \<and> spaced ((k', i') # r))"
| "spaced [x] = True"
| "spaced [] = True"

text \<open>The passes of a list at which the timing window has elapsed: the first pass whose
  clock is more than \<open>SEQUENCE_DELAY\<close> past \<open>t\<close>, then the first after it whose clock
  is more than \<open>SEQUENCE_DELAY\<close> past its time stamp, and so on.\<close>

fun elapsed_passes :: "32 word \<Rightarrow> tick list \<Rightarrow> tick list" where
  "elapsed_passes t [] = []"
| "elapsed_passes t (i # is) =
     (if SEQUENCE_DELAY < t_check i - t then i # elapsed_passes (t_stamp i) is
      else elapsed_passes t is)"

text \<open>A pass in which nothing arrives and every \<^verbatim>\<open>millis()\<close> call returns \<open>t\<close>, and
  nodes at rest whose rods stand at (25, 20), for the power level 1, and at (45, 35),
  for the power level 2; they serve as examples.\<close>

definition quiet_tick :: "32 word \<Rightarrow> tick" where
  "quiet_tick t = \<lparr>arrived = [], t_check = t, t_stamp = t, t_buzzer_check = t,
     t_buzzer_stamp = t, t_send_check = t, t_send_stamp = t\<rparr>"

definition rods_25_20 :: esp_c where
  "rods_25_20 = init_esp_c\<lparr>rod2_pos := 25, rod3_pos := 20\<rparr>"

definition rods_45_35 :: esp_c where
  "rods_45_35 = init_esp_c\<lparr>rod2_pos := 45, rod3_pos := 35\<rparr>"

subsection \<open>ESP-C: leaving the startup, and the state Running\<close>

definition rods_low_tick :: "32 word \<Rightarrow> tick" where
  "rods_low_tick t = (quiet_tick t)\<lparr>arrived := ''<rod2:5;rod3:20>''\<rparr>"

text \<open>The writes to the relays and to the PWM channels among a list of writes: every
  write to a pin other than the buzzer's, and every duty.\<close>

definition actuator_writes :: "event list \<Rightarrow> event list" where
  "actuator_writes evs =
     filter (\<lambda>e. case e of DigitalWrite pin v \<Rightarrow> pin \<noteq> BUZZER_PIN
                          | LedcWrite channel duty \<Rightarrow> True
                          | _ \<Rightarrow> False) evs"

text \<open>The example: the node is in Running at level 1; new rod positions raise the level
  to 2 in one pass, and the pass after that keeps it.\<close>

definition running_level1 :: esp_c where
  "running_level1 = last (run rods_25_20
      [quiet_tick 10, quiet_tick 5011, quiet_tick 10012, quiet_tick 15013])"

definition rods_high_tick :: "32 word \<Rightarrow> tick" where
  "rods_high_tick t = (quiet_tick t)\<lparr>arrived := ''<rod2:45;rod3:35>''\<rparr>"

subsection \<open>ESP-C: the parser and the tokens of a payload\<close>

text \<open>
  The pieces of a text between its semicolons, the empty ones as well, and the tokens of
  a payload: the pieces that are not empty. They follow the wire format,
  \<open>key1:value1;key2:value2;...\<close>, not the code.
\<close>

fun split_semi :: "string \<Rightarrow> string list" where
  "split_semi [] = [[]]"
| "split_semi (c # cs) =
     (if c = CHR '';'' then [] # split_semi cs
      else (case split_semi cs of t # ts \<Rightarrow> (c # t) # ts | [] \<Rightarrow> [[c]]))"

definition tokens :: "string \<Rightarrow> string list" where
  "tokens payload = filter (\<lambda>t. t \<noteq> []) (split_semi payload)"

text \<open>A text in which \<^verbatim>\<open>atol\<close> finds no number: after the white space and one sign, it
  ends or goes on with a character that is not a digit.\<close>

definition no_number :: "string \<Rightarrow> bool" where
  "no_number v =
     (let s1 = dropWhile isspace v;
          s2 = (if s1 \<noteq> [] \<and> (hd s1 = CHR ''-'' \<or> hd s1 = CHR ''+'') then tl s1 else s1)
      in s2 = [] \<or> \<not> isdigit (hd s2))"

text \<open>The example: a payload with a garbled value, a token without a colon, an empty
  token, an unknown key and a good \<open>rod3\<close>, waiting in a node whose rods stand at
  (41, 7).\<close>

definition garbled :: esp_c where
  "garbled = init_esp_c\<lparr>rod2_pos := 41, rod3_pos := 7, newData := True,
     receivedChars := ''rod2:abc;garbage;;foo:7;rod3:31'' @ replicate 19 NUL\<rparr>"

subsection \<open>Printing a number and reading it back\<close>

text \<open>The bytes a list of writes puts on Serial1.\<close>

definition serial1_bytes :: "event list \<Rightarrow> string" where
  "serial1_bytes evs = concat (map (\<lambda>e. case e of Serial1Out b \<Rightarrow> b | _ \<Rightarrow> []) evs)"

definition level2 :: esp_c where
  "level2 = init_esp_c\<lparr>currentPowerLevel := 2\<rparr>"

subsection \<open>The visualizer parsers and the pairs of a payload\<close>

text \<open>
  The pairs of a payload that end in a semicolon, and the text after the last semicolon;
  whether a pair has a colon and a given key in front of it, and the number behind the
  colon. As \<open>split_semi\<close>, they follow the wire format.
\<close>

definition terminated :: "string \<Rightarrow> string list" where
  "terminated payload = butlast (split_semi payload)"

definition trailing :: "string \<Rightarrow> string" where
  "trailing payload = last (split_semi payload)"

definition has_key :: "string \<Rightarrow> string \<Rightarrow> bool" where
  "has_key key pair = (case split_pair pair of None \<Rightarrow> False | Some (k, v) \<Rightarrow> k = key)"

definition pair_value :: "string \<Rightarrow> int" where
  "pair_value pair = (case split_pair pair of None \<Rightarrow> 0 | Some (k, v) \<Rightarrow> v)"

text \<open>
  Following the words of claim C8 for ESP-G, not the code: every pair that ends in a
  semicolon is looked at, each match storing its number, and then the text after the
  last semicolon is looked at as well.
\<close>

definition claimed_parse_G :: "string \<Rightarrow> int \<Rightarrow> int" where
  "claimed_parse_G data st =
     (let payload = strip_markers data;
          st' = fold (\<lambda>pair st. if has_key ''pump3'' pair then pair_value pair else st)
                  (terminated payload) st
      in if has_key ''pump3'' (trailing payload) then pair_value (trailing payload) else st')"

subsection \<open>ESP-E: the master position\<close>

text \<open>The position is the sentinel or the index of a channel.\<close>

definition pos_ok :: "esp_e \<Rightarrow> bool" where
  "pos_ok s = (masterPosition s = - 1 \<or> (0 \<le> masterPosition s \<and> masterPosition s < NUM_LEDS))"

text \<open>The examples: a node whose pump is on and whose position is at the last channel,
  and passes with and without a line from ESP-A.\<close>

definition quiet_e :: "32 word \<Rightarrow> tick_e" where
  "quiet_e t = \<lparr>line_read = None, e_check = t, e_stamp = t\<rparr>"

definition line_e :: "string \<Rightarrow> 32 word \<Rightarrow> tick_e" where
  "line_e l t = \<lparr>line_read = Some l, e_check = t, e_stamp = t\<rparr>"

definition at_last_led :: esp_e where
  "at_last_led = init_esp_e\<lparr>pumpPrimaryStatus := 2, masterPosition := 15\<rparr>"

section \<open>ESP-C: the frame decoder, proved\<close>

text \<open>The decoder keeps the index inside the array, and below 256: every write of
  \<open>recv_step\<close> is inside the array, and the \<^verbatim>\<open>byte\<close> index never wraps.\<close>

lemma recv_step_buf_ok: "buf_ok s \<Longrightarrow> buf_ok (recv_step s rc)"
  by (simp add: buf_ok_def recv_step_def MAX_DATA_LENGTH_def)

lemma recv_loop_buf_ok: "buf_ok s \<Longrightarrow> buf_ok (recv_loop s bs)"
proof (induction bs arbitrary: s)
  case Nil
  then show ?case by (simp add: buf_ok_def)
next
  case (Cons rc bs)
  show ?case
  proof (cases "newData s")
    case True
    then show ?thesis using Cons.prems by (simp add: buf_ok_def)
  next
    case False
    have "buf_ok (recv_loop (recv_step s rc) bs)"
      using Cons.prems by (intro Cons.IH recv_step_buf_ok)
    then show ?thesis using False by simp
  qed
qed

lemma init_buf_ok: "buf_ok init_esp_c"
  by (simp add: buf_ok_def init_esp_c_def MAX_DATA_LENGTH_def)

lemma recv_loop_newData: "newData s \<Longrightarrow> recv_loop s bs = s\<lparr>serial2_rx := bs\<rparr>"
  by (cases bs) auto

lemma recv_step_outside:
  "\<not> recvInProgress s \<Longrightarrow> CHR ''<'' \<noteq> rc \<Longrightarrow> recv_step s rc = s"
  by (auto simp: recv_step_def START_MARKER_def)

lemma recv_step_open:
  "\<not> recvInProgress s \<Longrightarrow> recv_step s (CHR ''<'') = s\<lparr>recvInProgress := True\<rparr>"
  by (simp add: recv_step_def START_MARKER_def)

lemma recv_step_no_end:
  "CHR ''>'' \<noteq> rc \<Longrightarrow> newData (recv_step s rc) = newData s"
  by (auto simp: recv_step_def END_MARKER_def)

lemma recv_loop_discard:
  "\<not> recvInProgress s \<Longrightarrow> \<not> newData s \<Longrightarrow> CHR ''<'' \<notin> set pre
   \<Longrightarrow> recv_loop s (pre @ bs) = recv_loop s bs"
  by (induction pre) (simp_all add: recv_step_outside)

lemma recv_loop_no_end:
  "\<not> newData s \<Longrightarrow> CHR ''>'' \<notin> set bs \<Longrightarrow> \<not> newData (recv_loop s bs)"
  by (induction bs arbitrary: s) (simp_all add: recv_step_no_end)

lemma recv_loop_ready_shape:
  assumes "\<not> newData s" "\<not> recvInProgress s" "newData (recv_loop s bs)"
  shows "\<exists>pre mid post. bs = pre @ CHR ''<'' # mid @ CHR ''>'' # post
           \<and> CHR ''<'' \<notin> set pre \<and> CHR ''>'' \<notin> set mid"
proof -
  have "CHR ''<'' \<in> set bs"
  proof (rule ccontr)
    assume "CHR ''<'' \<notin> set bs"
    then have "recv_loop s (bs @ []) = recv_loop s []"
      using assms(1,2) by (intro recv_loop_discard) auto
    with assms show False by simp
  qed
  then obtain pre r where bs: "bs = pre @ CHR ''<'' # r" and pre: "CHR ''<'' \<notin> set pre"
    by (auto dest: split_list_first)
  have eq: "recv_loop s bs = recv_loop (s\<lparr>recvInProgress := True\<rparr>) r"
    using assms(1,2) pre by (simp add: bs recv_loop_discard recv_step_open)
  have "CHR ''>'' \<in> set r"
  proof (rule ccontr)
    assume "CHR ''>'' \<notin> set r"
    then have "\<not> newData (recv_loop (s\<lparr>recvInProgress := True\<rparr>) r)"
      using assms(1) by (intro recv_loop_no_end) auto
    with eq assms(3) show False by simp
  qed
  then obtain mid post where "r = mid @ CHR ''>'' # post" "CHR ''>'' \<notin> set mid"
    by (auto dest: split_list_first)
  with bs pre show ?thesis by blast
qed

lemma recv_loop_in_frame:
  assumes "recvInProgress s" "\<not> newData s" "CHR ''>'' \<notin> set p"
    "length (receivedChars s) = 50" "ndx s \<le> 49"
  shows "\<exists>buf. recv_loop s (p @ bs)
            = recv_loop (s\<lparr>receivedChars := buf, ndx := min 49 (ndx s + length p)\<rparr>) bs
          \<and> length buf = 50
          \<and> take (min 49 (ndx s + length p)) buf = take 49 (take (ndx s) (receivedChars s) @ p)"
  using assms
proof (induction p arbitrary: s)
  case Nil
  then have "s\<lparr>receivedChars := receivedChars s, ndx := min 49 (ndx s + length ([]::string))\<rparr> = s"
    by (simp add: min_def)
  with Nil show ?case
    by (intro exI [of _ "receivedChars s"]) (simp add: min_def)
next
  case (Cons c p)
  from Cons.prems have c: "c \<noteq> CHR ''>''" and p: "CHR ''>'' \<notin> set p" by auto
  show ?case
  proof (cases "ndx s < 49")
    case True
    let ?s1 = "s\<lparr>receivedChars := (receivedChars s)[ndx s := c], ndx := ndx s + 1\<rparr>"
    have step: "recv_step s c = ?s1"
      using Cons.prems(1) c True by (simp add: recv_step_def END_MARKER_def MAX_DATA_LENGTH_def)
    have "\<exists>buf. recv_loop ?s1 (p @ bs)
            = recv_loop (?s1\<lparr>receivedChars := buf, ndx := min 49 (ndx ?s1 + length p)\<rparr>) bs
          \<and> length buf = 50
          \<and> take (min 49 (ndx ?s1 + length p)) buf = take 49 (take (ndx ?s1) (receivedChars ?s1) @ p)"
      using Cons.prems True p by (intro Cons.IH) auto
    then obtain buf where b: "recv_loop ?s1 (p @ bs)
            = recv_loop (?s1\<lparr>receivedChars := buf, ndx := min 49 (ndx ?s1 + length p)\<rparr>) bs"
        "length buf = 50"
        "take (min 49 (ndx ?s1 + length p)) buf = take 49 (take (ndx ?s1) (receivedChars ?s1) @ p)"
      by blast
    have tk: "take (ndx s + 1) ((receivedChars s)[ndx s := c]) = take (ndx s) (receivedChars s) @ [c]"
      using True Cons.prems(4) by (simp add: take_Suc_conv_app_nth)
    have m: "min 49 (ndx ?s1 + length p) = min 49 (ndx s + length (c # p))" by simp
    have r: "?s1\<lparr>receivedChars := buf, ndx := min 49 (ndx ?s1 + length p)\<rparr>
           = s\<lparr>receivedChars := buf, ndx := min 49 (ndx s + length (c # p))\<rparr>"
      by simp
    have t3: "take (min 49 (ndx s + length (c # p))) buf
            = take 49 (take (ndx s) (receivedChars s) @ c # p)"
    proof -
      have "take (min 49 (ndx s + length (c # p))) buf
            = take 49 (take (ndx ?s1) (receivedChars ?s1) @ p)"
        using b(3) unfolding m .
      also have "take (ndx ?s1) (receivedChars ?s1) = take (ndx s) (receivedChars s) @ [c]"
        using tk by simp
      finally show ?thesis by simp
    qed
    have "recv_loop s ((c # p) @ bs) = recv_loop ?s1 (p @ bs)"
      using Cons.prems(2) step by simp
    also have "\<dots> = recv_loop (s\<lparr>receivedChars := buf, ndx := min 49 (ndx s + length (c # p))\<rparr>) bs"
      using b(1) unfolding r .
    finally have e: "recv_loop s ((c # p) @ bs)
        = recv_loop (s\<lparr>receivedChars := buf, ndx := min 49 (ndx s + length (c # p))\<rparr>) bs" .
    show ?thesis
      by (rule exI [of _ buf], intro conjI) (fact e, fact b(2), fact t3)
  next
    case False
    with Cons.prems have n: "ndx s = 49" by simp
    have step: "recv_step s c = s"
      using Cons.prems(1) c n by (simp add: recv_step_def END_MARKER_def MAX_DATA_LENGTH_def)
    obtain buf where b: "recv_loop s (p @ bs)
            = recv_loop (s\<lparr>receivedChars := buf, ndx := min 49 (ndx s + length p)\<rparr>) bs"
        "length buf = 50"
        "take (min 49 (ndx s + length p)) buf = take 49 (take (ndx s) (receivedChars s) @ p)"
      using Cons.IH [OF Cons.prems(1,2) p Cons.prems(4,5)] by blast
    have m: "min 49 (ndx s + length p) = 49" "min 49 (ndx s + length (c # p)) = 49"
      using n by simp_all
    have t3: "take 49 (take (ndx s) (receivedChars s) @ p) = take 49 (take (ndx s) (receivedChars s) @ c # p)"
      using n Cons.prems(4) by simp
    have "recv_loop s ((c # p) @ bs) = recv_loop s (p @ bs)"
      using Cons.prems(2) step by simp
    then have e: "recv_loop s ((c # p) @ bs)
        = recv_loop (s\<lparr>receivedChars := buf, ndx := min 49 (ndx s + length (c # p))\<rparr>) bs"
      using b(1) by (simp only: m)
    have t4: "take (min 49 (ndx s + length (c # p))) buf
        = take 49 (take (ndx s) (receivedChars s) @ c # p)"
      using b(3) unfolding m t3 .
    show ?thesis
      by (rule exI [of _ buf], intro conjI) (fact e, fact b(2), fact t4)
  qed
qed

lemma takeWhile_all: "\<forall>x\<in>set xs. P x \<Longrightarrow> xs = takeWhile P xs"
  by (induction xs) auto

lemma c_str_terminated:
  "n < length buf \<Longrightarrow> c_str (buf[n := NUL]) = c_str (take n buf)"
proof -
  assume n: "n < length buf"
  have "takeWhile (\<lambda>c. c \<noteq> NUL) (take n buf @ NUL # drop (Suc n) buf)
          = takeWhile (\<lambda>c. c \<noteq> NUL) (take n buf)"
  proof (cases "\<forall>x\<in>set (take n buf). x \<noteq> NUL")
    case True
    have "takeWhile (\<lambda>c. c \<noteq> NUL) (take n buf @ NUL # drop (Suc n) buf)
            = take n buf @ takeWhile (\<lambda>c. c \<noteq> NUL) (NUL # drop (Suc n) buf)"
      using True by (simp add: takeWhile_append)
    also have "\<dots> = take n buf" by simp
    also have "\<dots> = takeWhile (\<lambda>c. c \<noteq> NUL) (take n buf)"
      using True by (rule takeWhile_all)
    finally show ?thesis .
  next
    case False
    then show ?thesis by (auto simp: takeWhile_append)
  qed
  with n show ?thesis by (simp add: c_str_def upd_conv_take_nth_drop)
qed

lemma c_str_no_NUL: "NUL \<notin> set xs \<Longrightarrow> c_str xs = xs"
  by (auto simp: c_str_def)

text \<open>A whole frame, read by a decoder that is outside any frame.\<close>

lemma recv_loop_frame:
  assumes "\<not> newData s" "\<not> recvInProgress s" "ndx s = 0" "length (receivedChars s) = 50"
    "CHR ''<'' \<notin> set pre" "CHR ''>'' \<notin> set p"
  shows "newData (recv_loop s (pre @ CHR ''<'' # p @ CHR ''>'' # rest))
       \<and> c_str (receivedChars (recv_loop s (pre @ CHR ''<'' # p @ CHR ''>'' # rest))) = c_str (take 49 p)
       \<and> serial2_rx (recv_loop s (pre @ CHR ''<'' # p @ CHR ''>'' # rest)) = rest
       \<and> \<not> recvInProgress (recv_loop s (pre @ CHR ''<'' # p @ CHR ''>'' # rest))
       \<and> ndx (recv_loop s (pre @ CHR ''<'' # p @ CHR ''>'' # rest)) = 0"
proof -
  let ?s1 = "s\<lparr>recvInProgress := True\<rparr>"
  have e1: "recv_loop s (pre @ CHR ''<'' # p @ CHR ''>'' # rest) = recv_loop ?s1 (p @ CHR ''>'' # rest)"
    using assms(1,2,5) by (simp add: recv_loop_discard recv_step_open)
  obtain buf where b: "recv_loop ?s1 (p @ CHR ''>'' # rest)
        = recv_loop (?s1\<lparr>receivedChars := buf, ndx := min 49 (ndx ?s1 + length p)\<rparr>) (CHR ''>'' # rest)"
      "length buf = 50"
      "take (min 49 (ndx ?s1 + length p)) buf = take 49 (take (ndx ?s1) (receivedChars ?s1) @ p)"
    using recv_loop_in_frame [of ?s1 p "CHR ''>'' # rest"] assms by auto
  let ?n = "min 49 (length p)"
  let ?s2 = "?s1\<lparr>receivedChars := buf, ndx := ?n\<rparr>"
  have e2: "recv_loop ?s2 (CHR ''>'' # rest)
      = ?s2\<lparr>receivedChars := buf[?n := NUL], recvInProgress := False, ndx := 0, newData := True,
            serial2_rx := rest\<rparr>"
    using assms(1) by (simp add: recv_step_def END_MARKER_def recv_loop_newData)
  have tk: "take ?n buf = take 49 p" using b(3) assms(3) by simp
  have "c_str (buf[?n := NUL]) = c_str (take 49 p)"
    using b(2) tk by (simp add: c_str_terminated)
  with e1 b(1) e2 assms(3) show ?thesis by simp
qed

lemma recv_step_serial2:
  "recv_step (s\<lparr>serial2_rx := x\<rparr>) rc = (recv_step s rc)\<lparr>serial2_rx := x\<rparr>"
  by (simp add: recv_step_def)

lemma recv_loop_serial2: "recv_loop (s\<lparr>serial2_rx := x\<rparr>) bs = recv_loop s bs"
proof (induction bs arbitrary: s)
  case Nil
  show ?case by simp
next
  case (Cons rc bs)
  have "recv_loop ((recv_step s rc)\<lparr>serial2_rx := x\<rparr>) bs = recv_loop (recv_step s rc) bs"
    by (rule Cons.IH)
  then show ?case by (simp add: recv_step_serial2)
qed

lemma recvDataFromESP_B_loop: "recvDataFromESP_B (s\<lparr>serial2_rx := bs\<rparr>) = recv_loop s bs"
  by (simp add: recvDataFromESP_B_def recv_loop_serial2)

lemma recv_loop_open:
  assumes "\<not> newData s" "recvInProgress s" "CHR ''>'' \<notin> set p"
  shows "recvInProgress (recv_loop s p)"
  using assms
proof (induction p arbitrary: s)
  case Nil
  then show ?case by simp
next
  case (Cons c p)
  then have c: "c \<noteq> END_MARKER" by (auto simp: END_MARKER_def)
  have "recvInProgress (recv_step s c)" "\<not> newData (recv_step s c)"
    using Cons.prems(1,2) c by (simp_all add: recv_step_def)
  then have "recvInProgress (recv_loop (recv_step s c) p)"
    using Cons.prems(3) by (intro Cons.IH) auto
  then show ?case using Cons.prems(1) by simp
qed

text \<open>The bytes of one call may as well come in two calls, as long as the first sets
  no flag.\<close>

lemma recv_loop_append:
  "\<not> newData (recv_loop s xs) \<Longrightarrow> recv_loop s (xs @ ys) = recv_loop (recv_loop s xs) ys"
proof (induction xs arbitrary: s)
  case Nil
  show ?case by (simp add: recv_loop_serial2)
next
  case (Cons rc xs)
  have n: "\<not> newData s"
  proof
    assume "newData s"
    then have "newData (recv_loop s (rc # xs))" by simp
    with Cons.prems show False by simp
  qed
  then have "\<not> newData (recv_loop (recv_step s rc) xs)" using Cons.prems by simp
  then have "recv_loop (recv_step s rc) (xs @ ys) = recv_loop (recv_loop (recv_step s rc) xs) ys"
    by (rule Cons.IH)
  with n show ?case by simp
qed

text \<open>An open frame with no end marker yet: the index and the bytes kept.\<close>

lemma recv_loop_open_frame:
  assumes "\<not> newData s" "\<not> recvInProgress s" "ndx s = 0" "length (receivedChars s) = 50"
    "CHR ''>'' \<notin> set p"
  shows "ndx (recv_loop s (CHR ''<'' # p)) = min 49 (length p)"
    and "take (min 49 (length p)) (receivedChars (recv_loop s (CHR ''<'' # p))) = take 49 p"
    and "length (receivedChars (recv_loop s (CHR ''<'' # p))) = 50"
proof -
  let ?s1 = "s\<lparr>recvInProgress := True\<rparr>"
  have e1: "recv_loop s (CHR ''<'' # p) = recv_loop ?s1 p"
    using assms(1,2) by (simp add: recv_step_open)
  obtain buf where b: "recv_loop ?s1 (p @ [])
        = recv_loop (?s1\<lparr>receivedChars := buf, ndx := min 49 (ndx ?s1 + length p)\<rparr>) []"
      "length buf = 50"
      "take (min 49 (ndx ?s1 + length p)) buf = take 49 (take (ndx ?s1) (receivedChars ?s1) @ p)"
    using recv_loop_in_frame [of ?s1 p "[]"] assms by auto
  have e2: "recv_loop s (CHR ''<'' # p)
      = ?s1\<lparr>receivedChars := buf, ndx := min 49 (length p), serial2_rx := []\<rparr>"
    unfolding e1 using b(1) assms(3) by simp
  show "ndx (recv_loop s (CHR ''<'' # p)) = min 49 (length p)" unfolding e2 by simp
  show "take (min 49 (length p)) (receivedChars (recv_loop s (CHR ''<'' # p))) = take 49 p"
    unfolding e2 using b(3) assms(3) by simp
  show "length (receivedChars (recv_loop s (CHR ''<'' # p))) = 50" unfolding e2 using b(2) by simp
qed

text \<open>The parser keeps the variables of the decoder and clears the flag.\<close>

lemma decoder_vars_handle_pair: "decoder_vars (handle_pair token s) = decoder_vars s"
  by (simp add: handle_pair_def decoder_vars_def Let_def split: option.splits)

lemma decoder_vars_parse_tokens: "decoder_vars (parse_tokens rest s) = decoder_vars s"
proof (induction rest s rule: parse_tokens.induct)
  case (1 rest s)
  show ?case
  proof (cases "strtok_semi rest")
    case None
    then show ?thesis by (simp add: parse_tokens.simps [of rest])
  next
    case (Some a)
    obtain token rest' where a: "a = (token, rest')" by (cases a)
    have "decoder_vars (parse_tokens rest' (handle_pair token s)) = decoder_vars (handle_pair token s)"
      using "1.IH" Some a by simp
    then show ?thesis
      using Some a by (simp add: parse_tokens.simps [of rest] decoder_vars_handle_pair)
  qed
qed

lemma parseDataFromESP_B_decoder:
  "receivedChars (parseDataFromESP_B s) = receivedChars s"
  "ndx (parseDataFromESP_B s) = ndx s"
  "recvInProgress (parseDataFromESP_B s) = recvInProgress s"
  "serial2_rx (parseDataFromESP_B s) = serial2_rx s"
  "\<not> newData (parseDataFromESP_B s)"
proof -
  have "decoder_vars (parseDataFromESP_B s) = decoder_vars s"
    using decoder_vars_parse_tokens [of "c_str (receivedChars s)" s]
    by (simp add: parseDataFromESP_B_def decoder_vars_def)
  then show "receivedChars (parseDataFromESP_B s) = receivedChars s"
    "ndx (parseDataFromESP_B s) = ndx s"
    "recvInProgress (parseDataFromESP_B s) = recvInProgress s"
    "serial2_rx (parseDataFromESP_B s) = serial2_rx s"
    by (simp_all add: decoder_vars_def)
  show "\<not> newData (parseDataFromESP_B s)" by (simp add: parseDataFromESP_B_def)
qed

text \<open>The call after a delivered frame, once the parser has taken the payload: the
  decoder is outside any frame again and reads the bytes left in the port.\<close>

lemma recv_after_frame:
  assumes "\<not> newData s" "\<not> recvInProgress s" "ndx s = 0" "length (receivedChars s) = 50"
    "CHR ''>'' \<notin> set p"
  shows "recvDataFromESP_B (parseDataFromESP_B (recv_loop s (CHR ''<'' # p @ CHR ''>'' # rest)))
         = recv_loop (parseDataFromESP_B (recv_loop s (CHR ''<'' # p @ CHR ''>'' # rest))) rest"
    and "\<not> newData (parseDataFromESP_B (recv_loop s (CHR ''<'' # p @ CHR ''>'' # rest)))"
    and "\<not> recvInProgress (parseDataFromESP_B (recv_loop s (CHR ''<'' # p @ CHR ''>'' # rest)))"
    and "ndx (parseDataFromESP_B (recv_loop s (CHR ''<'' # p @ CHR ''>'' # rest))) = 0"
    and "length (receivedChars (parseDataFromESP_B (recv_loop s (CHR ''<'' # p @ CHR ''>'' # rest)))) = 50"
proof -
  define d where "d = recv_loop s (CHR ''<'' # p @ CHR ''>'' # rest)"
  have sh: "newData s' \<Longrightarrow> receivedChars (recv_loop s' bs) = receivedChars s'" for s' bs
    by (simp add: recv_loop_newData)
  note fr = recv_loop_frame [OF assms(1-4) _ assms(5), of "[]" rest, unfolded append_Nil, folded d_def]
  have l: "length (receivedChars d) = 50"
    using recv_loop_buf_ok [of s "CHR ''<'' # p @ CHR ''>'' # rest"] assms(3,4)
    by (simp add: buf_ok_def MAX_DATA_LENGTH_def d_def)
  show "recvDataFromESP_B (parseDataFromESP_B d) = recv_loop (parseDataFromESP_B d) rest"
    using fr by (simp add: recvDataFromESP_B_def parseDataFromESP_B_decoder)
  show "\<not> newData (parseDataFromESP_B d)" by (rule parseDataFromESP_B_decoder)
  show "\<not> recvInProgress (parseDataFromESP_B d)" using fr by (simp add: parseDataFromESP_B_decoder)
  show "ndx (parseDataFromESP_B d) = 0" using fr by (simp add: parseDataFromESP_B_decoder)
  show "length (receivedChars (parseDataFromESP_B d)) = 50"
    using l by (simp add: parseDataFromESP_B_decoder)
qed

text \<open>
  C4. The decoder \<open>s\<close> is outside any frame and holds no payload that waits for the
  parser. Then, for every sequence of bytes it is fed: (a) the new-message flag is set
  only if the bytes hold a start marker and, later, an end marker; (b) bytes in front of
  the first start marker change nothing; (c) of a frame's payload the first 49 bytes are
  kept, the end marker then delivers them as the text of the buffer, closes the frame
  and sets the index back to 0, and the bytes behind the frame stay in the port;
  (d) while no end marker has come the frame stays open, however long the payload, the
  index stops at 49 and the buffer holds the first 49 bytes of the payload; (e) bytes
  without an end marker never set the flag, as for the stream \<open><rod2:5\<close>; (f) bytes
  that come in two calls are decoded as in one call, as long as the first call sets no
  flag; (g) in the call that follows a delivered frame, after the parser has taken the
  payload, bytes behind the frame that hold no start marker are discarded: they set no
  flag and open no frame, whether or not an end marker is among them; (h) in that call
  a second frame behind the first delivers its own payload and nothing of the first
  frame or of the bytes between the two.
\<close>

theorem decoder_delivers_complete_frames_only:
  assumes "\<not> newData s" and "\<not> recvInProgress s" and "ndx s = 0"
    and "length (receivedChars s) = MAX_DATA_LENGTH"
  shows "(\<forall>bs. newData (recvDataFromESP_B (s\<lparr>serial2_rx := bs\<rparr>)) \<longrightarrow>
            (\<exists>pre mid post. bs = pre @ START_MARKER # mid @ END_MARKER # post))
       \<and> (\<forall>pre bs. START_MARKER \<notin> set pre \<longrightarrow>
            recvDataFromESP_B (s\<lparr>serial2_rx := pre @ bs\<rparr>) = recvDataFromESP_B (s\<lparr>serial2_rx := bs\<rparr>))
       \<and> (\<forall>p rest. END_MARKER \<notin> set p \<longrightarrow>
            newData (recvDataFromESP_B (s\<lparr>serial2_rx := START_MARKER # p @ END_MARKER # rest\<rparr>))
          \<and> c_str (receivedChars (recvDataFromESP_B (s\<lparr>serial2_rx := START_MARKER # p @ END_MARKER # rest\<rparr>)))
              = c_str (take (MAX_DATA_LENGTH - 1) p)
          \<and> serial2_rx (recvDataFromESP_B (s\<lparr>serial2_rx := START_MARKER # p @ END_MARKER # rest\<rparr>)) = rest
          \<and> \<not> recvInProgress (recvDataFromESP_B (s\<lparr>serial2_rx := START_MARKER # p @ END_MARKER # rest\<rparr>))
          \<and> ndx (recvDataFromESP_B (s\<lparr>serial2_rx := START_MARKER # p @ END_MARKER # rest\<rparr>)) = 0
          \<and> length (receivedChars (recvDataFromESP_B (s\<lparr>serial2_rx := START_MARKER # p @ END_MARKER # rest\<rparr>)))
              = MAX_DATA_LENGTH)
       \<and> (\<forall>p. END_MARKER \<notin> set p \<longrightarrow>
            recvInProgress (recvDataFromESP_B (s\<lparr>serial2_rx := START_MARKER # p\<rparr>))
          \<and> ndx (recvDataFromESP_B (s\<lparr>serial2_rx := START_MARKER # p\<rparr>))
              = min (MAX_DATA_LENGTH - 1) (length p)
          \<and> take (min (MAX_DATA_LENGTH - 1) (length p))
                (receivedChars (recvDataFromESP_B (s\<lparr>serial2_rx := START_MARKER # p\<rparr>)))
              = take (MAX_DATA_LENGTH - 1) p
          \<and> length (receivedChars (recvDataFromESP_B (s\<lparr>serial2_rx := START_MARKER # p\<rparr>)))
              = MAX_DATA_LENGTH)
       \<and> (\<forall>bs. END_MARKER \<notin> set bs \<longrightarrow> \<not> newData (recvDataFromESP_B (s\<lparr>serial2_rx := bs\<rparr>)))
       \<and> \<not> newData (recvDataFromESP_B (s\<lparr>serial2_rx := ''<rod2:5''\<rparr>))
       \<and> (\<forall>xs ys. \<not> newData (recvDataFromESP_B (s\<lparr>serial2_rx := xs\<rparr>)) \<longrightarrow>
            recvDataFromESP_B ((recvDataFromESP_B (s\<lparr>serial2_rx := xs\<rparr>))\<lparr>serial2_rx := ys\<rparr>)
              = recvDataFromESP_B (s\<lparr>serial2_rx := xs @ ys\<rparr>))
       \<and> (\<forall>p junk. END_MARKER \<notin> set p \<and> START_MARKER \<notin> set junk \<longrightarrow>
            \<not> newData (recvDataFromESP_B (parseDataFromESP_B (recvDataFromESP_B
                 (s\<lparr>serial2_rx := START_MARKER # p @ END_MARKER # junk\<rparr>))))
          \<and> \<not> recvInProgress (recvDataFromESP_B (parseDataFromESP_B (recvDataFromESP_B
                 (s\<lparr>serial2_rx := START_MARKER # p @ END_MARKER # junk\<rparr>))))
          \<and> ndx (recvDataFromESP_B (parseDataFromESP_B (recvDataFromESP_B
                 (s\<lparr>serial2_rx := START_MARKER # p @ END_MARKER # junk\<rparr>)))) = 0
          \<and> serial2_rx (recvDataFromESP_B (parseDataFromESP_B (recvDataFromESP_B
                 (s\<lparr>serial2_rx := START_MARKER # p @ END_MARKER # junk\<rparr>)))) = [])
       \<and> (\<forall>p junk q rest. END_MARKER \<notin> set p \<and> START_MARKER \<notin> set junk \<and> END_MARKER \<notin> set q \<longrightarrow>
            newData (recvDataFromESP_B (parseDataFromESP_B (recvDataFromESP_B
                 (s\<lparr>serial2_rx := START_MARKER # p @ END_MARKER # junk @ START_MARKER # q @ END_MARKER # rest\<rparr>))))
          \<and> c_str (receivedChars (recvDataFromESP_B (parseDataFromESP_B (recvDataFromESP_B
                 (s\<lparr>serial2_rx := START_MARKER # p @ END_MARKER # junk @ START_MARKER # q @ END_MARKER # rest\<rparr>)))))
              = c_str (take (MAX_DATA_LENGTH - 1) q)
          \<and> serial2_rx (recvDataFromESP_B (parseDataFromESP_B (recvDataFromESP_B
                 (s\<lparr>serial2_rx := START_MARKER # p @ END_MARKER # junk @ START_MARKER # q @ END_MARKER # rest\<rparr>))))
              = rest
          \<and> \<not> recvInProgress (recvDataFromESP_B (parseDataFromESP_B (recvDataFromESP_B
                 (s\<lparr>serial2_rx := START_MARKER # p @ END_MARKER # junk @ START_MARKER # q @ END_MARKER # rest\<rparr>))))
          \<and> ndx (recvDataFromESP_B (parseDataFromESP_B (recvDataFromESP_B
                 (s\<lparr>serial2_rx := START_MARKER # p @ END_MARKER # junk @ START_MARKER # q @ END_MARKER # rest\<rparr>)))) = 0)"
proof (intro conjI allI impI)
  fix bs
  assume "newData (recvDataFromESP_B (s\<lparr>serial2_rx := bs\<rparr>))"
  then have "newData (recv_loop s bs)" by (simp add: recvDataFromESP_B_loop)
  from recv_loop_ready_shape [OF assms(1,2) this]
  show "\<exists>pre mid post. bs = pre @ START_MARKER # mid @ END_MARKER # post"
    unfolding START_MARKER_def END_MARKER_def by blast
next
  fix pre bs
  assume "START_MARKER \<notin> set pre"
  then show "recvDataFromESP_B (s\<lparr>serial2_rx := pre @ bs\<rparr>) = recvDataFromESP_B (s\<lparr>serial2_rx := bs\<rparr>)"
    using assms(1,2) by (simp add: recvDataFromESP_B_loop recv_loop_discard START_MARKER_def)
next
  fix p rest
  assume p: "END_MARKER \<notin> set p"
  have len: "length (receivedChars s) = 50" using assms(4) by (simp add: MAX_DATA_LENGTH_def)
  have p': "CHR ''>'' \<notin> set p" using p by (simp add: END_MARKER_def)
  note fr = recv_loop_frame [OF assms(1,2,3) len _ p', of "[]" rest, simplified]
  show "newData (recvDataFromESP_B (s\<lparr>serial2_rx := START_MARKER # p @ END_MARKER # rest\<rparr>))"
    using fr by (simp add: recvDataFromESP_B_loop START_MARKER_def END_MARKER_def)
  show "c_str (receivedChars (recvDataFromESP_B (s\<lparr>serial2_rx := START_MARKER # p @ END_MARKER # rest\<rparr>)))
          = c_str (take (MAX_DATA_LENGTH - 1) p)"
    using fr by (simp add: recvDataFromESP_B_loop START_MARKER_def END_MARKER_def MAX_DATA_LENGTH_def)
  show "serial2_rx (recvDataFromESP_B (s\<lparr>serial2_rx := START_MARKER # p @ END_MARKER # rest\<rparr>)) = rest"
    using fr by (simp add: recvDataFromESP_B_loop START_MARKER_def END_MARKER_def)
  show "\<not> recvInProgress (recvDataFromESP_B (s\<lparr>serial2_rx := START_MARKER # p @ END_MARKER # rest\<rparr>))"
    using fr by (simp add: recvDataFromESP_B_loop START_MARKER_def END_MARKER_def)
  show "ndx (recvDataFromESP_B (s\<lparr>serial2_rx := START_MARKER # p @ END_MARKER # rest\<rparr>)) = 0"
    using fr by (simp add: recvDataFromESP_B_loop START_MARKER_def END_MARKER_def)
  have "buf_ok s" using assms(3,4) by (simp add: buf_ok_def MAX_DATA_LENGTH_def)
  then have "buf_ok (recv_loop s (START_MARKER # p @ END_MARKER # rest))" by (rule recv_loop_buf_ok)
  then show "length (receivedChars (recvDataFromESP_B (s\<lparr>serial2_rx := START_MARKER # p @ END_MARKER # rest\<rparr>)))
          = MAX_DATA_LENGTH"
    by (simp only: recvDataFromESP_B_loop buf_ok_def)
next
  fix p
  assume p: "END_MARKER \<notin> set p"
  have len: "length (receivedChars s) = 50" using assms(4) by (simp add: MAX_DATA_LENGTH_def)
  have p': "CHR ''>'' \<notin> set p" using p by (simp add: END_MARKER_def)
  have "recvInProgress (recv_loop (s\<lparr>recvInProgress := True\<rparr>) p)"
    using assms(1) p by (intro recv_loop_open) (simp_all add: END_MARKER_def)
  then show "recvInProgress (recvDataFromESP_B (s\<lparr>serial2_rx := START_MARKER # p\<rparr>))"
    using assms(1,2) by (simp add: recvDataFromESP_B_loop START_MARKER_def recv_step_open)
  note o = recv_loop_open_frame [OF assms(1,2,3) len p']
  have m: "MAX_DATA_LENGTH - 1 = 49" "MAX_DATA_LENGTH = 50" by (simp_all add: MAX_DATA_LENGTH_def)
  show "ndx (recvDataFromESP_B (s\<lparr>serial2_rx := START_MARKER # p\<rparr>))
          = min (MAX_DATA_LENGTH - 1) (length p)"
    unfolding recvDataFromESP_B_loop START_MARKER_def m(1) by (rule o(1))
  show "take (min (MAX_DATA_LENGTH - 1) (length p))
                (receivedChars (recvDataFromESP_B (s\<lparr>serial2_rx := START_MARKER # p\<rparr>)))
          = take (MAX_DATA_LENGTH - 1) p"
    unfolding recvDataFromESP_B_loop START_MARKER_def m(1) by (rule o(2))
  show "length (receivedChars (recvDataFromESP_B (s\<lparr>serial2_rx := START_MARKER # p\<rparr>)))
          = MAX_DATA_LENGTH"
    unfolding recvDataFromESP_B_loop START_MARKER_def m(2) by (rule o(3))
next
  fix bs
  assume "END_MARKER \<notin> set bs"
  then show "\<not> newData (recvDataFromESP_B (s\<lparr>serial2_rx := bs\<rparr>))"
    using assms(1) by (simp add: recvDataFromESP_B_loop recv_loop_no_end END_MARKER_def)
next
  have "CHR ''>'' \<notin> set ''<rod2:5''" by simp
  then show "\<not> newData (recvDataFromESP_B (s\<lparr>serial2_rx := ''<rod2:5''\<rparr>))"
    using assms(1) by (simp only: recvDataFromESP_B_loop recv_loop_no_end not_False_eq_True)
next
  fix xs ys
  assume "\<not> newData (recvDataFromESP_B (s\<lparr>serial2_rx := xs\<rparr>))"
  then have "\<not> newData (recv_loop s xs)" unfolding recvDataFromESP_B_loop .
  then have "recv_loop s (xs @ ys) = recv_loop (recv_loop s xs) ys" by (rule recv_loop_append)
  then show "recvDataFromESP_B ((recvDataFromESP_B (s\<lparr>serial2_rx := xs\<rparr>))\<lparr>serial2_rx := ys\<rparr>)
              = recvDataFromESP_B (s\<lparr>serial2_rx := xs @ ys\<rparr>)"
    unfolding recvDataFromESP_B_loop by (rule sym)
next
  fix p junk
  assume a: "END_MARKER \<notin> set p \<and> START_MARKER \<notin> set junk"
  have len: "length (receivedChars s) = 50" using assms(4) by (simp add: MAX_DATA_LENGTH_def)
  have p': "CHR ''>'' \<notin> set p" and j': "CHR ''<'' \<notin> set junk"
    using a by (simp_all add: END_MARKER_def START_MARKER_def)
  define d where "d = parseDataFromESP_B (recv_loop s (CHR ''<'' # p @ CHR ''>'' # junk))"
  note af = recv_after_frame [OF assms(1,2,3) len p', of junk, folded d_def]
  have "recv_loop d (junk @ []) = recv_loop d []"
    using af(3,2) j' by (rule recv_loop_discard)
  then have e: "recvDataFromESP_B d = d\<lparr>serial2_rx := []\<rparr>" using af(1) by simp
  have d: "parseDataFromESP_B (recvDataFromESP_B
             (s\<lparr>serial2_rx := START_MARKER # p @ END_MARKER # junk\<rparr>)) = d"
    by (simp only: recvDataFromESP_B_loop START_MARKER_def END_MARKER_def d_def)
  show "\<not> newData (recvDataFromESP_B (parseDataFromESP_B (recvDataFromESP_B
                 (s\<lparr>serial2_rx := START_MARKER # p @ END_MARKER # junk\<rparr>))))"
    unfolding d e using af(2) by simp
  show "\<not> recvInProgress (recvDataFromESP_B (parseDataFromESP_B (recvDataFromESP_B
                 (s\<lparr>serial2_rx := START_MARKER # p @ END_MARKER # junk\<rparr>))))"
    unfolding d e using af(3) by simp
  show "ndx (recvDataFromESP_B (parseDataFromESP_B (recvDataFromESP_B
                 (s\<lparr>serial2_rx := START_MARKER # p @ END_MARKER # junk\<rparr>)))) = 0"
    unfolding d e using af(4) by simp
  show "serial2_rx (recvDataFromESP_B (parseDataFromESP_B (recvDataFromESP_B
                 (s\<lparr>serial2_rx := START_MARKER # p @ END_MARKER # junk\<rparr>)))) = []"
    unfolding d e by simp
next
  fix p junk q rest
  assume a: "END_MARKER \<notin> set p \<and> START_MARKER \<notin> set junk \<and> END_MARKER \<notin> set q"
  have len: "length (receivedChars s) = 50" using assms(4) by (simp add: MAX_DATA_LENGTH_def)
  have p': "CHR ''>'' \<notin> set p" and j': "CHR ''<'' \<notin> set junk" and q': "CHR ''>'' \<notin> set q"
    using a by (simp_all add: END_MARKER_def START_MARKER_def)
  define tl where "tl = junk @ CHR ''<'' # q @ CHR ''>'' # rest"
  define d where "d = parseDataFromESP_B (recv_loop s (CHR ''<'' # p @ CHR ''>'' # tl))"
  note af = recv_after_frame [OF assms(1,2,3) len p', of tl, folded d_def]
  note fr = recv_loop_frame [OF af(2,3,4,5) j' q', of rest, folded tl_def]
  have d: "parseDataFromESP_B (recvDataFromESP_B
             (s\<lparr>serial2_rx := START_MARKER # p @ END_MARKER # junk @ START_MARKER # q @ END_MARKER # rest\<rparr>)) = d"
    by (simp only: recvDataFromESP_B_loop START_MARKER_def END_MARKER_def d_def tl_def)
  show "newData (recvDataFromESP_B (parseDataFromESP_B (recvDataFromESP_B
                 (s\<lparr>serial2_rx := START_MARKER # p @ END_MARKER # junk @ START_MARKER # q @ END_MARKER # rest\<rparr>))))"
    unfolding d af(1) using fr by simp
  show "c_str (receivedChars (recvDataFromESP_B (parseDataFromESP_B (recvDataFromESP_B
                 (s\<lparr>serial2_rx := START_MARKER # p @ END_MARKER # junk @ START_MARKER # q @ END_MARKER # rest\<rparr>)))))
              = c_str (take (MAX_DATA_LENGTH - 1) q)"
    unfolding d af(1) using fr by (simp add: MAX_DATA_LENGTH_def)
  show "serial2_rx (recvDataFromESP_B (parseDataFromESP_B (recvDataFromESP_B
                 (s\<lparr>serial2_rx := START_MARKER # p @ END_MARKER # junk @ START_MARKER # q @ END_MARKER # rest\<rparr>))))
              = rest"
    unfolding d af(1) using fr by simp
  show "\<not> recvInProgress (recvDataFromESP_B (parseDataFromESP_B (recvDataFromESP_B
                 (s\<lparr>serial2_rx := START_MARKER # p @ END_MARKER # junk @ START_MARKER # q @ END_MARKER # rest\<rparr>))))"
    unfolding d af(1) using fr by simp
  show "ndx (recvDataFromESP_B (parseDataFromESP_B (recvDataFromESP_B
                 (s\<lparr>serial2_rx := START_MARKER # p @ END_MARKER # junk @ START_MARKER # q @ END_MARKER # rest\<rparr>)))) = 0"
    unfolding d af(1) using fr by simp
qed

theorem decoder_delivers_complete_frames_only_witness:
  "newData (recvDataFromESP_B (init_esp_c\<lparr>serial2_rx := ''<rod2:41;rod3:31>x''\<rparr>))
   \<and> c_str (receivedChars (recvDataFromESP_B (init_esp_c\<lparr>serial2_rx := ''<rod2:41;rod3:31>x''\<rparr>)))
       = ''rod2:41;rod3:31''
   \<and> serial2_rx (recvDataFromESP_B (init_esp_c\<lparr>serial2_rx := ''<rod2:41;rod3:31>x''\<rparr>)) = ''x''
   \<and> \<not> newData (recvDataFromESP_B (init_esp_c\<lparr>serial2_rx := ''<rod2:5''\<rparr>))
   \<and> \<not> recvInProgress (recvDataFromESP_B (init_esp_c\<lparr>serial2_rx := ''<rod2:41;rod3:31>x''\<rparr>))
   \<and> ndx (recvDataFromESP_B (init_esp_c\<lparr>serial2_rx := ''<rod2:41;rod3:31>x''\<rparr>)) = 0
   \<and> \<not> newData (recvDataFromESP_B (parseDataFromESP_B (recvDataFromESP_B
          (init_esp_c\<lparr>serial2_rx := ''<rod2:41;rod3:31>'' @ CRLF @ ''junk>''\<rparr>))))
   \<and> \<not> recvInProgress (recvDataFromESP_B (parseDataFromESP_B (recvDataFromESP_B
          (init_esp_c\<lparr>serial2_rx := ''<rod2:41;rod3:31>'' @ CRLF @ ''junk>''\<rparr>))))
   \<and> newData (recvDataFromESP_B (parseDataFromESP_B (recvDataFromESP_B
          (init_esp_c\<lparr>serial2_rx := ''<rod2:41;rod3:31>'' @ CRLF @ ''junk><rod2:5;rod3:2>'' @ CRLF\<rparr>))))
   \<and> c_str (receivedChars (recvDataFromESP_B (parseDataFromESP_B (recvDataFromESP_B
          (init_esp_c\<lparr>serial2_rx := ''<rod2:41;rod3:31>'' @ CRLF @ ''junk><rod2:5;rod3:2>'' @ CRLF\<rparr>)))))
       = ''rod2:5;rod3:2''
   \<and> serial2_rx (recvDataFromESP_B (parseDataFromESP_B (recvDataFromESP_B
          (init_esp_c\<lparr>serial2_rx := ''<rod2:41;rod3:31>'' @ CRLF @ ''junk><rod2:5;rod3:2>'' @ CRLF\<rparr>))))
       = CRLF"
proof -
  have h: "\<not> newData init_esp_c" "\<not> recvInProgress init_esp_c" "ndx init_esp_c = 0"
    "length (receivedChars init_esp_c) = MAX_DATA_LENGTH"
    by (simp_all add: init_esp_c_def MAX_DATA_LENGTH_def)
  have e: "END_MARKER \<notin> set ''rod2:41;rod3:31''" by (simp add: END_MARKER_def)
  have n: "c_str (take (MAX_DATA_LENGTH - 1) ''rod2:41;rod3:31'') = ''rod2:41;rod3:31''"
    by (simp add: c_str_def MAX_DATA_LENGTH_def NUL_def)
  note T = decoder_delivers_complete_frames_only [OF h]
  note c = T [THEN conjunct2, THEN conjunct2, THEN conjunct1, rule_format, OF e, of "''x''"]
  note d = T [THEN conjunct2, THEN conjunct2, THEN conjunct2, THEN conjunct2, THEN conjunct2,
      THEN conjunct1]
  note r = T [THEN conjunct2, THEN conjunct2, THEN conjunct2, THEN conjunct2, THEN conjunct2,
      THEN conjunct2, THEN conjunct2]
  have j: "END_MARKER \<notin> set ''rod2:41;rod3:31'' \<and> START_MARKER \<notin> set (CRLF @ ''junk>'')"
    by (simp add: END_MARKER_def START_MARKER_def CRLF_def)
  note g = r [THEN conjunct1, rule_format, OF j]
  have k: "END_MARKER \<notin> set ''rod2:41;rod3:31'' \<and> START_MARKER \<notin> set (CRLF @ ''junk>'')
      \<and> END_MARKER \<notin> set ''rod2:5;rod3:2''"
    by (simp add: END_MARKER_def START_MARKER_def CRLF_def)
  note f = r [THEN conjunct2, rule_format, OF k, of CRLF]
  have n2: "c_str (take (MAX_DATA_LENGTH - 1) ''rod2:5;rod3:2'') = ''rod2:5;rod3:2''"
    by (simp add: c_str_def MAX_DATA_LENGTH_def NUL_def)
  from c d g f show ?thesis
    unfolding n n2 by (simp add: START_MARKER_def END_MARKER_def)
qed

text \<open>
  C10. Inside an open frame the start marker is stored like any other byte that is not
  the end marker: the decoder writes it at \<open>ndx\<close> and moves on, and the frame is
  neither closed nor begun again. So a frame whose payload holds a start marker delivers
  that payload whole; the stream \<open><a<b>\<close> delivers \<open>a<b\<close>.
\<close>

theorem start_marker_inside_frame_is_payload:
  "(recvInProgress s \<longrightarrow>
      recv_step s START_MARKER =
        (if ndx s < MAX_DATA_LENGTH - 1
         then s\<lparr>receivedChars := (receivedChars s)[ndx s := START_MARKER],
                ndx := (ndx s + 1) mod 256\<rparr>
         else s))
   \<and> (\<not> newData s \<and> \<not> recvInProgress s \<and> ndx s = 0
        \<and> length (receivedChars s) = MAX_DATA_LENGTH
        \<and> END_MARKER \<notin> set (p1 @ p2) \<and> NUL \<notin> set (p1 @ p2)
        \<and> length p1 + 1 + length p2 < MAX_DATA_LENGTH \<longrightarrow>
      newData (recvDataFromESP_B
         (s\<lparr>serial2_rx := START_MARKER # p1 @ START_MARKER # p2 @ END_MARKER # rest\<rparr>))
      \<and> c_str (receivedChars (recvDataFromESP_B
         (s\<lparr>serial2_rx := START_MARKER # p1 @ START_MARKER # p2 @ END_MARKER # rest\<rparr>)))
          = p1 @ START_MARKER # p2
      \<and> serial2_rx (recvDataFromESP_B
         (s\<lparr>serial2_rx := START_MARKER # p1 @ START_MARKER # p2 @ END_MARKER # rest\<rparr>)) = rest)
   \<and> newData (recvDataFromESP_B (init_esp_c\<lparr>serial2_rx := ''<a<b>''\<rparr>))
   \<and> c_str (receivedChars (recvDataFromESP_B (init_esp_c\<lparr>serial2_rx := ''<a<b>''\<rparr>))) = ''a<b''"
proof (intro conjI impI)
  assume "recvInProgress s"
  then show "recv_step s START_MARKER =
        (if ndx s < MAX_DATA_LENGTH - 1
         then s\<lparr>receivedChars := (receivedChars s)[ndx s := START_MARKER],
                ndx := (ndx s + 1) mod 256\<rparr>
         else s)"
    by (simp add: recv_step_def START_MARKER_def END_MARKER_def)
next
  assume a: "\<not> newData s \<and> \<not> recvInProgress s \<and> ndx s = 0
        \<and> length (receivedChars s) = MAX_DATA_LENGTH
        \<and> END_MARKER \<notin> set (p1 @ p2) \<and> NUL \<notin> set (p1 @ p2)
        \<and> length p1 + 1 + length p2 < MAX_DATA_LENGTH"
  let ?p = "p1 @ CHR ''<'' # p2"
  have e: "CHR ''>'' \<notin> set ?p" using a by (simp add: END_MARKER_def)
  have len: "length (receivedChars s) = 50" using a by (simp add: MAX_DATA_LENGTH_def)
  have "length ?p \<le> 49" using a by (auto simp: MAX_DATA_LENGTH_def)
  then have short: "take 49 ?p = ?p" by (rule take_all)
  have "NUL \<notin> set ?p" using a by (simp add: NUL_def)
  then have cs: "c_str ?p = ?p" by (rule c_str_no_NUL)
  have a1: "\<not> newData s" and a2: "\<not> recvInProgress s" and a3: "ndx s = 0" using a by simp_all
  have ne: "CHR ''<'' \<notin> set []" by simp
  note fr = recv_loop_frame [OF a1 a2 a3 len ne e, of rest, unfolded append_Nil short cs]
  show "newData (recvDataFromESP_B
         (s\<lparr>serial2_rx := START_MARKER # p1 @ START_MARKER # p2 @ END_MARKER # rest\<rparr>))"
    using fr by (simp add: recvDataFromESP_B_loop START_MARKER_def END_MARKER_def)
  show "c_str (receivedChars (recvDataFromESP_B
         (s\<lparr>serial2_rx := START_MARKER # p1 @ START_MARKER # p2 @ END_MARKER # rest\<rparr>)))
          = p1 @ START_MARKER # p2"
    using fr by (simp add: recvDataFromESP_B_loop START_MARKER_def END_MARKER_def)
  show "serial2_rx (recvDataFromESP_B
         (s\<lparr>serial2_rx := START_MARKER # p1 @ START_MARKER # p2 @ END_MARKER # rest\<rparr>)) = rest"
    using fr by (simp add: recvDataFromESP_B_loop START_MARKER_def END_MARKER_def)
next
  have i: "\<not> newData init_esp_c" "\<not> recvInProgress init_esp_c" "ndx init_esp_c = 0"
    "length (receivedChars init_esp_c) = 50"
    by (simp_all add: init_esp_c_def)
  have ne: "CHR ''<'' \<notin> set []" and e: "CHR ''>'' \<notin> set ''a<b''" by simp_all
  have cs: "c_str (take 49 ''a<b'') = ''a<b''" by (simp add: c_str_def NUL_def)
  note fr = recv_loop_frame [OF i ne e, of "[]", unfolded append_Nil cs]
  have ex: "recvDataFromESP_B (init_esp_c\<lparr>serial2_rx := ''<a<b>''\<rparr>)
              = recv_loop init_esp_c ''<a<b>''"
    by (rule recvDataFromESP_B_loop)
  show "newData (recvDataFromESP_B (init_esp_c\<lparr>serial2_rx := ''<a<b>''\<rparr>))"
    unfolding ex using fr by simp
  show "c_str (receivedChars (recvDataFromESP_B (init_esp_c\<lparr>serial2_rx := ''<a<b>''\<rparr>))) = ''a<b''"
    unfolding ex using fr by simp
qed

theorem start_marker_inside_frame_is_payload_witness:
  "recv_step (init_esp_c\<lparr>recvInProgress := True\<rparr>) START_MARKER
     = init_esp_c\<lparr>recvInProgress := True,
                   receivedChars := (replicate 50 NUL)[0 := START_MARKER], ndx := 1\<rparr>
   \<and> c_str (receivedChars (recvDataFromESP_B (init_esp_c\<lparr>serial2_rx := ''<x<<y>z''\<rparr>))) = ''x<<y''
   \<and> serial2_rx (recvDataFromESP_B (init_esp_c\<lparr>serial2_rx := ''<x<<y>z''\<rparr>)) = ''z''"
proof -
  note T1 = start_marker_inside_frame_is_payload
    [of "init_esp_c\<lparr>recvInProgress := True\<rparr>" "[]" "[]" "[]", THEN conjunct1]
  note T2 = start_marker_inside_frame_is_payload
    [of init_esp_c "''x''" "''<y''" "''z''", THEN conjunct2, THEN conjunct1]
  from T1 T2 show ?thesis
    by (simp add: init_esp_c_def START_MARKER_def END_MARKER_def MAX_DATA_LENGTH_def NUL_def)
qed

section \<open>ESP-C: what each part of the loop leaves alone\<close>

lemma do_all_Nil: "do_all [] s = s"
  by (simp add: do_all_def)

lemma do_all_Cons: "do_all (f # fs) s = do_all fs (f s)"
  by (simp add: do_all_def)

lemma ctl_recv_step: "ctl (recv_step s rc) = ctl s"
  by (simp add: recv_step_def ctl_def)

lemma ctl_recv_loop: "ctl (recv_loop s bs) = ctl s"
  by (induction bs arbitrary: s) (simp_all add: ctl_recv_step, simp_all add: ctl_def)

lemma ctl_recvDataFromESP_B: "ctl (recvDataFromESP_B s) = ctl s"
  by (simp add: recvDataFromESP_B_def ctl_recv_loop)

lemma ctl_handle_pair: "ctl (handle_pair token s) = ctl s"
  by (simp add: handle_pair_def ctl_def Let_def split: option.splits)

lemma ctl_parse_tokens: "ctl (parse_tokens rest s) = ctl s"
proof (induction rest s rule: parse_tokens.induct)
  case (1 rest s)
  show ?case
  proof (cases "strtok_semi rest")
    case None
    then show ?thesis by (simp add: parse_tokens.simps [of rest])
  next
    case (Some a)
    obtain token rest' where a: "a = (token, rest')" by (cases a)
    have "ctl (parse_tokens rest' (handle_pair token s)) = ctl (handle_pair token s)"
      using "1.IH" Some a by simp
    then show ?thesis
      using Some a by (simp add: parse_tokens.simps [of rest] ctl_handle_pair)
  qed
qed

lemma ctl_parseDataFromESP_B: "ctl (parseDataFromESP_B s) = ctl s"
proof (cases "newData s")
  case True
  have "ctl ((parse_tokens (c_str (receivedChars s)) s)\<lparr>newData := False\<rparr>)
        = ctl (parse_tokens (c_str (receivedChars s)) s)"
    by (simp add: ctl_def)
  with True show ?thesis by (simp add: parseDataFromESP_B_def ctl_parse_tokens)
next
  case False
  then show ?thesis by (simp add: parseDataFromESP_B_def)
qed

lemma ctl_received: "ctl (received i s) = ctl s"
proof -
  have "ctl (received i s) = ctl (s\<lparr>serial2_rx := serial2_rx s @ arrived i\<rparr>)"
    by (simp only: received_def ctl_parseDataFromESP_B ctl_recvDataFromESP_B)
  then show ?thesis by (simp add: ctl_def)
qed

lemma sense_eq:
  "sense i s = (received i s)\<lparr>previousPowerLevel := currentPowerLevel s,
       currentPowerLevel := derivePowerLevel (rod2_pos (received i s)) (rod3_pos (received i s))\<rparr>"
proof -
  have "currentPowerLevel (received i s) = currentPowerLevel s"
    using ctl_received [of i s] by (simp add: ctl_def)
  then show ?thesis
    by (simp add: sense_def do_all_Cons do_all_Nil received_def)
qed

lemma sense_fields:
  "currentState (sense i s) = currentState s"
  "sequence_step (sense i s) = sequence_step s"
  "stateTimer (sense i s) = stateTimer s"
  "buzzerTimer (sense i s) = buzzerTimer s"
  "isBuzzerOn (sense i s) = isBuzzerOn s"
  "lastUartSendToD (sense i s) = lastUartSendToD s"
  "trace (sense i s) = trace s"
  "previousPowerLevel (sense i s) = currentPowerLevel s"
  "currentPowerLevel (sense i s) = derivePowerLevel (rod2_pos (sense i s)) (rod3_pos (sense i s))"
  using ctl_received [of i s] by (simp_all add: sense_eq ctl_def)

section \<open>ESP-C: the writes of each procedure\<close>

lemmas io_defs = emit_def digitalWrite_def ledcWrite_def Serial_print_def Serial_println_def
  Serial1_print_def setMotorPwm_def

lemmas pin_defs = BUZZER_PIN_def STEAM_HUMID_1_PIN_def STEAM_HUMID_2_PIN_def
  CONDENSOR_HUMID_PIN_def COOLTOWER_HUMID_1_PIN_def COOLTOWER_HUMID_2_PIN_def
  RELAY_ON_def RELAY_OFF_def PWM_CH_STEAM_FAN_def PWM_CH_TURBINE_def
  PWM_CH_CONDENSOR_def PWM_CH_COOLTOWER_def

lemma arduino_map_values:
  "arduino_map 0 0 100 0 255 = 0"
  "arduino_map 40 0 100 0 255 = 102"
  "arduino_map 50 0 100 0 255 = 127"
  "arduino_map 60 0 100 0 255 = 153"
  "arduino_map 100 0 100 0 255 = 255"
  by (simp_all add: arduino_map_def signed_divide_int_def)

lemma updateSystemOutputs_eq:
  "updateSystemOutputs s =
     (if currentState s = STATE_RUNNING
      then s\<lparr>trace := trace s @ steady_profile (currentPowerLevel s)\<rparr> else s)"
  by (simp add: updateSystemOutputs_def steady_profile_def do_all_Cons do_all_Nil io_defs
      pin_defs arduino_map_values)

lemma turnEverythingOff_eq:
  "turnEverythingOff s = s\<lparr>isBuzzerOn := False, trace := trace s @ all_off\<rparr>"
  by (simp add: turnEverythingOff_def all_off_def do_all_Cons do_all_Nil io_defs
      pin_defs arduino_map_values)

lemma runStartupSequence_eq:
  "runStartupSequence s =
     (if sequence_step s = 4
      then s\<lparr>currentState := STATE_RUNNING,
             trace := trace s @ startup_stage 4 @ steady_profile (currentPowerLevel s)\<rparr>
      else s\<lparr>trace := trace s @ startup_stage (sequence_step s)\<rparr>)"
  by (simp add: runStartupSequence_def startup_stage_def do_all_Cons do_all_Nil io_defs
      pin_defs arduino_map_values updateSystemOutputs_eq)

lemma runShutdownSequence_eq:
  "runShutdownSequence s =
     (if sequence_step s = 4
      then s\<lparr>currentState := STATE_IDLE, trace := trace s @ shutdown_stage 4\<rparr>
      else s\<lparr>trace := trace s @ shutdown_stage (sequence_step s)\<rparr>)"
  by (simp add: runShutdownSequence_def shutdown_stage_def do_all_Cons do_all_Nil io_defs
      pin_defs arduino_map_values)

lemma beginShutdown_eq:
  "beginShutdown i s =
     s\<lparr>currentState := STATE_SHUTTING_DOWN, sequence_step := 1, stateTimer := t_stamp i,
       isBuzzerOn := False, trace := trace s @ all_off @ shutdown_stage 1\<rparr>"
  by (simp add: beginShutdown_def do_all_Cons do_all_Nil turnEverythingOff_eq
      runShutdownSequence_eq)

lemma buzzer_eq:
  "buzzer i s =
     (if currentPowerLevel s = 2 \<and> rod2_pos s \<ge> 70 \<and> rod3_pos s \<ge> 55 then
        (if t_buzzer_check i - buzzerTimer s > BUZZER_INTERVAL
         then s\<lparr>buzzerTimer := t_buzzer_stamp i, isBuzzerOn := \<not> isBuzzerOn s,
                trace := trace s @ [DigitalWrite 21 (if isBuzzerOn s then LOW else HIGH)]\<rparr>
         else s)
      else
        (if isBuzzerOn s
         then s\<lparr>isBuzzerOn := False, trace := trace s @ [DigitalWrite 21 LOW]\<rparr>
         else s))"
  by (simp add: buzzer_def do_all_Cons do_all_Nil io_defs pin_defs)

lemma sendDataToEspD_eq:
  "sendDataToEspD s = s\<lparr>trace := trace s @ status_frame (currentPowerLevel s)\<rparr>"
  by (simp add: sendDataToEspD_def status_frame_def do_all_Cons do_all_Nil io_defs
      START_MARKER_def END_MARKER_def)

lemma broadcast_eq:
  "broadcast i s =
     (if t_send_check i - lastUartSendToD s > UART_SEND_TO_D_INTERVAL
      then s\<lparr>lastUartSendToD := t_send_stamp i,
             trace := trace s @ status_frame (currentPowerLevel s)\<rparr>
      else s)"
  by (simp add: broadcast_def do_all_Cons do_all_Nil sendDataToEspD_eq)

lemma stateMachine_eq:
  "stateMachine i s =
     (case currentState s of
        STATE_IDLE \<Rightarrow>
          (if currentPowerLevel s > 0
           then s\<lparr>currentState := STATE_STARTING_UP, sequence_step := 1, stateTimer := t_stamp i,
                  trace := trace s @ startup_stage 1\<rparr>
           else s)
      | STATE_STARTING_UP \<Rightarrow>
          (if currentPowerLevel s = 0 then beginShutdown i s
           else if t_check i - stateTimer s > SEQUENCE_DELAY
           then runStartupSequence (s\<lparr>sequence_step := sequence_step s + 1, stateTimer := t_stamp i\<rparr>)
           else s)
      | STATE_RUNNING \<Rightarrow>
          (if currentPowerLevel s = 0 then beginShutdown i s
           else buzzer i (reapply s))
      | STATE_SHUTTING_DOWN \<Rightarrow>
          (if t_check i - stateTimer s > SEQUENCE_DELAY
           then runShutdownSequence (s\<lparr>sequence_step := sequence_step s + 1, stateTimer := t_stamp i\<rparr>)
           else s))"
  by (simp add: stateMachine_def reapply_def do_all_Cons do_all_Nil io_defs
      runStartupSequence_eq startup_stage_def updateSystemOutputs_eq split: SystemState.splits)

lemma loop_eq: "loop i s = broadcast i (stateMachine i (sense i s))"
  by (simp add: loop_def do_all_Cons do_all_Nil)

lemma readings_stateMachine: "readings (stateMachine i s) = readings s"
  by (simp add: stateMachine_eq beginShutdown_eq runStartupSequence_eq runShutdownSequence_eq
      buzzer_eq reapply_def readings_def split: SystemState.splits)

lemma readings_broadcast: "readings (broadcast i s) = readings s"
  by (simp add: broadcast_eq readings_def)

lemma readings_loop: "readings (loop i s) = readings (sense i s)"
  by (simp only: loop_eq readings_broadcast readings_stateMachine)

text \<open>
  C1. After every pass of \<open>loop\<close>, whatever the state and the time, the power level is
  the value of \<open>derivePowerLevel\<close> at the two rod positions the pass has parsed; and
  \<open>derivePowerLevel\<close> is 0 when rod2 is below 21 or rod3 below 16, else 2 when rod2 is
  at least 41 and rod3 at least 31, else 1. The rods (15, 10) give 0, (45, 35) give 2
  and (25, 20) give 1.
\<close>

theorem power_level_from_rod_readings:
  "currentPowerLevel (loop i s) = derivePowerLevel (rod2_pos (loop i s)) (rod3_pos (loop i s))
   \<and> rod2_pos (loop i s) = rod2_pos (received i s)
   \<and> rod3_pos (loop i s) = rod3_pos (received i s)
   \<and> derivePowerLevel rod2 rod3 =
        (if rod2 < 21 \<or> rod3 < 16 then 0 else if rod2 \<ge> 41 \<and> rod3 \<ge> 31 then 2 else 1)
   \<and> derivePowerLevel 15 10 = 0
   \<and> derivePowerLevel 45 35 = 2
   \<and> derivePowerLevel 25 20 = 1"
proof -
  have r: "readings (loop i s) = readings (sense i s)" by (rule readings_loop)
  have "currentPowerLevel (loop i s) = derivePowerLevel (rod2_pos (loop i s)) (rod3_pos (loop i s))"
    using r sense_fields(9) [of i s] by (simp add: readings_def)
  moreover have "rod2_pos (loop i s) = rod2_pos (received i s)"
    "rod3_pos (loop i s) = rod3_pos (received i s)"
    using r by (simp_all add: readings_def sense_eq)
  ultimately show ?thesis by (simp add: derivePowerLevel_def)
qed

section \<open>ESP-C: what one pass writes\<close>

lemma broadcast_fields:
  "currentState (broadcast i s) = currentState s"
  "sequence_step (broadcast i s) = sequence_step s"
  "stateTimer (broadcast i s) = stateTimer s"
  "isBuzzerOn (broadcast i s) = isBuzzerOn s"
  "currentPowerLevel (broadcast i s) = currentPowerLevel s"
  by (simp_all add: broadcast_eq)

lemma local_status_frame: "filter (\<lambda>e. \<not> is_serial1 e) (status_frame level) = []"
  by (simp add: status_frame_def is_serial1_def)

lemma local_fixed:
  "filter (\<lambda>e. \<not> is_serial1 e) (startup_stage k) = startup_stage k"
  "filter (\<lambda>e. \<not> is_serial1 e) (shutdown_stage k) = shutdown_stage k"
  "filter (\<lambda>e. \<not> is_serial1 e) (steady_profile k) = steady_profile k"
  "filter (\<lambda>e. \<not> is_serial1 e) all_off = all_off"
  by (simp_all add: startup_stage_def shutdown_stage_def steady_profile_def all_off_def
      is_serial1_def)

lemma trace_broadcast:
  "\<exists>b. trace (broadcast i s) = trace s @ b \<and> filter (\<lambda>e. \<not> is_serial1 e) b = []"
  by (simp add: broadcast_eq local_status_frame)

text \<open>The writes of a pass are those of the state machine, then the periodic message.\<close>

lemma new_events_split:
  assumes "trace (stateMachine i (sense i s)) = trace s @ a"
  shows "\<exists>b. new_events i s = a @ b \<and> filter (\<lambda>e. \<not> is_serial1 e) b = []"
proof -
  obtain b where b: "trace (broadcast i (stateMachine i (sense i s)))
      = trace (stateMachine i (sense i s)) @ b" "filter (\<lambda>e. \<not> is_serial1 e) b = []"
    using trace_broadcast by blast
  have "new_events i s = a @ b"
    by (simp add: new_events_def loop_eq b(1) assms)
  with b(2) show ?thesis by blast
qed

lemma local_events_split:
  assumes "trace (stateMachine i (sense i s)) = trace s @ a"
  shows "local_events i s = filter (\<lambda>e. \<not> is_serial1 e) a"
  using new_events_split [OF assms] by (auto simp: local_events_def)

lemma loop_fields:
  "currentState (loop i s) = currentState (stateMachine i (sense i s))"
  "sequence_step (loop i s) = sequence_step (stateMachine i (sense i s))"
  "stateTimer (loop i s) = stateTimer (stateMachine i (sense i s))"
  "isBuzzerOn (loop i s) = isBuzzerOn (stateMachine i (sense i s))"
  "currentPowerLevel (loop i s) = currentPowerLevel (sense i s)"
  using readings_stateMachine [of i "sense i s"]
  by (simp_all add: loop_eq broadcast_fields readings_def)

text \<open>A pass in the state StartingUp with a power level other than 0.\<close>

lemma starting_up_pass:
  assumes st: "currentState s = STATE_STARTING_UP" and lvl: "currentPowerLevel (loop i s) \<noteq> 0"
  shows "SEQUENCE_DELAY < t_check i - stateTimer s \<Longrightarrow> sequence_step s \<noteq> 3 \<Longrightarrow>
           currentState (loop i s) = STATE_STARTING_UP
         \<and> sequence_step (loop i s) = sequence_step s + 1
         \<and> stateTimer (loop i s) = t_stamp i
         \<and> local_events i s = startup_stage (sequence_step s + 1)"
    and "SEQUENCE_DELAY < t_check i - stateTimer s \<Longrightarrow> sequence_step s = 3 \<Longrightarrow>
           currentState (loop i s) = STATE_RUNNING
         \<and> sequence_step (loop i s) = 4
         \<and> stateTimer (loop i s) = t_stamp i
         \<and> local_events i s = startup_stage 4 @ steady_profile (currentPowerLevel (loop i s))"
    and "\<not> SEQUENCE_DELAY < t_check i - stateTimer s \<Longrightarrow>
           currentState (loop i s) = STATE_STARTING_UP
         \<and> sequence_step (loop i s) = sequence_step s
         \<and> stateTimer (loop i s) = stateTimer s
         \<and> local_events i s = []"
proof -
  let ?s1 = "sense i s"
  have f: "currentState ?s1 = STATE_STARTING_UP" "sequence_step ?s1 = sequence_step s"
    "stateTimer ?s1 = stateTimer s" "trace ?s1 = trace s" "currentPowerLevel ?s1 \<noteq> 0"
    using st lvl by (simp_all add: sense_fields loop_fields)
  {
    assume e: "SEQUENCE_DELAY < t_check i - stateTimer s" and n: "sequence_step s \<noteq> 3"
    have sm: "stateMachine i ?s1 = ?s1\<lparr>sequence_step := sequence_step s + 1, stateTimer := t_stamp i,
        trace := trace s @ startup_stage (sequence_step s + 1)\<rparr>"
      using f e n by (simp add: stateMachine_eq runStartupSequence_eq)
    have "local_events i s = filter (\<lambda>e. \<not> is_serial1 e) (startup_stage (sequence_step s + 1))"
      by (rule local_events_split) (simp add: sm)
    then show "currentState (loop i s) = STATE_STARTING_UP
         \<and> sequence_step (loop i s) = sequence_step s + 1
         \<and> stateTimer (loop i s) = t_stamp i
         \<and> local_events i s = startup_stage (sequence_step s + 1)"
      using f by (simp add: loop_fields sm local_fixed)
  }
  {
    assume e: "SEQUENCE_DELAY < t_check i - stateTimer s" and n: "sequence_step s = 3"
    have sm: "stateMachine i ?s1 = ?s1\<lparr>sequence_step := 4, stateTimer := t_stamp i,
        currentState := STATE_RUNNING,
        trace := trace s @ startup_stage 4 @ steady_profile (currentPowerLevel ?s1)\<rparr>"
      using f e n by (simp add: stateMachine_eq runStartupSequence_eq)
    have "local_events i s
        = filter (\<lambda>e. \<not> is_serial1 e) (startup_stage 4 @ steady_profile (currentPowerLevel ?s1))"
      by (rule local_events_split) (simp add: sm)
    then show "currentState (loop i s) = STATE_RUNNING
         \<and> sequence_step (loop i s) = 4
         \<and> stateTimer (loop i s) = t_stamp i
         \<and> local_events i s = startup_stage 4 @ steady_profile (currentPowerLevel (loop i s))"
      by (simp add: loop_fields sm local_fixed)
  }
  {
    assume e: "\<not> SEQUENCE_DELAY < t_check i - stateTimer s"
    have sm: "stateMachine i ?s1 = ?s1"
      using f e by (simp add: stateMachine_eq)
    have "local_events i s = filter (\<lambda>e. \<not> is_serial1 e) []"
      by (rule local_events_split) (simp add: sm f)
    then show "currentState (loop i s) = STATE_STARTING_UP
         \<and> sequence_step (loop i s) = sequence_step s
         \<and> stateTimer (loop i s) = stateTimer s
         \<and> local_events i s = []"
      using f by (simp add: loop_fields sm)
  }
qed

text \<open>A pass in the state Idle with a power level other than 0.\<close>

lemma derivePowerLevel_range: "derivePowerLevel a b = 0 \<or> derivePowerLevel a b = 1 \<or> derivePowerLevel a b = 2"
  by (simp add: derivePowerLevel_def)

lemma level_range: "currentPowerLevel (loop i s) \<in> {0, 1, 2}"
  using derivePowerLevel_range [of "rod2_pos (sense i s)" "rod3_pos (sense i s)"]
  by (simp add: loop_fields sense_fields(9))

lemma idle_pass:
  assumes st: "currentState s = STATE_IDLE" and lvl: "currentPowerLevel (loop i s) \<noteq> 0"
  shows "currentState (loop i s) = STATE_STARTING_UP
         \<and> sequence_step (loop i s) = 1
         \<and> stateTimer (loop i s) = t_stamp i
         \<and> local_events i s = startup_stage 1"
proof -
  let ?s1 = "sense i s"
  have "currentPowerLevel ?s1 \<in> {0, 1, 2}" using level_range [of i s] by (simp add: loop_fields)
  then have f: "currentState ?s1 = STATE_IDLE" "trace ?s1 = trace s" "currentPowerLevel ?s1 > 0"
    using st lvl by (auto simp: sense_fields loop_fields)
  have sm: "stateMachine i ?s1 = ?s1\<lparr>currentState := STATE_STARTING_UP, sequence_step := 1,
      stateTimer := t_stamp i, trace := trace s @ startup_stage 1\<rparr>"
    using f by (simp add: stateMachine_eq)
  have "local_events i s = filter (\<lambda>e. \<not> is_serial1 e) (startup_stage 1)"
    by (rule local_events_split) (simp add: sm)
  then show ?thesis by (simp add: loop_fields sm local_fixed)
qed

section \<open>ESP-C: the startup as a run\<close>

lemma stages_in_simps:
  "stages_in [] = []"
  "stages_in (startup_stage 1) = [1]"
  "stages_in (startup_stage 2) = [2]"
  "stages_in (startup_stage 3) = [3]"
  "stages_in (startup_stage 4 @ steady_profile level) = [4]"
  by (simp_all add: stages_in_def startup_stage_def steady_profile_def)

lemma startup_from:
  assumes "currentState s = STATE_STARTING_UP" and "sequence_step s = k" and "k \<in> {1, 2, 3}"
    and "\<forall>s' \<in> set (run s ins). currentPowerLevel s' \<noteq> 0"
    and "ins \<noteq> []"
    and "currentState (last (run s ins)) = STATE_RUNNING"
    and "\<forall>s' \<in> set (butlast (run s ins)). currentState s' \<noteq> STATE_RUNNING"
    and "t_stamp j = stateTimer s"
  shows "map fst (startup_log s ins) = filter (\<lambda>n. k < n) [1, 2, 3, 4]
       \<and> spaced ((k, j) # startup_log s ins)
       \<and> run_events s ins = concat (map startup_stage (filter (\<lambda>n. k < n) [1, 2, 3, 4]))
                              @ steady_profile (currentPowerLevel (last (run s ins)))
       \<and> snd (last (startup_log s ins)) = last ins"
  using assms
proof (induction ins arbitrary: s k j)
  case Nil
  then show ?case by simp
next
  case (Cons i "is")
  let ?s' = "loop i s"
  have st: "currentState s = STATE_STARTING_UP" by fact
  have lvl: "currentPowerLevel ?s' \<noteq> 0" using Cons.prems(4) by simp
  note pass = starting_up_pass [OF st lvl]
  show ?case
  proof (cases "SEQUENCE_DELAY < t_check i - stateTimer s")
    case False
    note p = pass(3) [OF False]
    have ne: "is \<noteq> []"
    proof
      assume "is = []"
      with Cons.prems(6) p show False by simp
    qed
    have ih: "map fst (startup_log ?s' is) = filter (\<lambda>n. k < n) [1, 2, 3, 4]
       \<and> spaced ((k, j) # startup_log ?s' is)
       \<and> run_events ?s' is = concat (map startup_stage (filter (\<lambda>n. k < n) [1, 2, 3, 4]))
                              @ steady_profile (currentPowerLevel (last (run ?s' is)))
       \<and> snd (last (startup_log ?s' is)) = last is"
    proof (rule Cons.IH)
      show "currentState ?s' = STATE_STARTING_UP" using p by simp
      show "sequence_step ?s' = k" using p Cons.prems(2) by simp
      show "k \<in> {1, 2, 3}" by fact
      show "\<forall>s' \<in> set (run ?s' is). currentPowerLevel s' \<noteq> 0" using Cons.prems(4) by simp
      show "is \<noteq> []" by fact
      show "currentState (last (run ?s' is)) = STATE_RUNNING"
        using Cons.prems(6) ne by (cases "is") simp_all
      show "\<forall>s' \<in> set (butlast (run ?s' is)). currentState s' \<noteq> STATE_RUNNING"
        using Cons.prems(7) ne by (cases "is") simp_all
      show "t_stamp j = stateTimer ?s'" using p Cons.prems(8) by simp
    qed
    have l: "last (run s (i # is)) = last (run ?s' is)" using ne by (cases "is") simp_all
    have "startup_log s (i # is) = startup_log ?s' is" "run_events s (i # is) = run_events ?s' is"
      using p by (simp_all add: stages_in_simps)
    with ih l ne show ?thesis by simp
  next
    case True
    show ?thesis
    proof (cases "k = 3")
      case k3: True
      have p: "currentState ?s' = STATE_RUNNING
         \<and> local_events i s = startup_stage 4 @ steady_profile (currentPowerLevel ?s')"
        using pass(2) [OF True] k3 Cons.prems(2) by simp
      have e: "is = []"
      proof (rule ccontr)
        assume "is \<noteq> []"
        then have "?s' \<in> set (butlast (run s (i # is)))" by (cases "is") simp_all
        with Cons.prems(7) p show False by blast
      qed
      show ?thesis
        using p k3 True Cons.prems(8) by (simp add: e stages_in_simps)
    next
      case False
      then have k12: "k = 1 \<or> k = 2" using Cons.prems(3) by auto
      have p: "currentState ?s' = STATE_STARTING_UP \<and> sequence_step ?s' = k + 1
         \<and> stateTimer ?s' = t_stamp i \<and> local_events i s = startup_stage (k + 1)"
        using pass(1) [OF True] False Cons.prems(2) by simp
      have ne: "is \<noteq> []"
      proof
        assume "is = []"
        with Cons.prems(6) p show False by simp
      qed
      have ih: "map fst (startup_log ?s' is) = filter (\<lambda>n. k + 1 < n) [1, 2, 3, 4]
         \<and> spaced ((k + 1, i) # startup_log ?s' is)
         \<and> run_events ?s' is = concat (map startup_stage (filter (\<lambda>n. k + 1 < n) [1, 2, 3, 4]))
                                @ steady_profile (currentPowerLevel (last (run ?s' is)))
         \<and> snd (last (startup_log ?s' is)) = last is"
      proof (rule Cons.IH)
        show "currentState ?s' = STATE_STARTING_UP" using p by simp
        show "sequence_step ?s' = k + 1" using p by simp
        show "k + 1 \<in> {1, 2, 3}" using k12 by auto
        show "\<forall>s' \<in> set (run ?s' is). currentPowerLevel s' \<noteq> 0" using Cons.prems(4) by simp
        show "is \<noteq> []" by fact
        show "currentState (last (run ?s' is)) = STATE_RUNNING"
          using Cons.prems(6) ne by (cases "is") simp_all
        show "\<forall>s' \<in> set (butlast (run ?s' is)). currentState s' \<noteq> STATE_RUNNING"
          using Cons.prems(7) ne by (cases "is") simp_all
        show "t_stamp i = stateTimer ?s'" using p by simp
      qed
      have l: "last (run s (i # is)) = last (run ?s' is)" using ne by (cases "is") simp_all
      have lg: "startup_log s (i # is) = (k + 1, i) # startup_log ?s' is"
        using p k12 by (auto simp: stages_in_simps)
      have re: "run_events s (i # is) = startup_stage (k + 1) @ run_events ?s' is"
        using p by simp
      have nl: "startup_log ?s' is \<noteq> []"
        using ih k12 by auto
      have sp: "spaced ((k, j) # (k + 1, i) # startup_log ?s' is)"
        using ih True Cons.prems(8) by simp
      show ?thesis
        unfolding lg re l using ih sp nl ne k12 by auto
    qed
  qed
qed

lemma trace_stateMachine: "\<exists>a. trace (stateMachine i s) = trace s @ a"
  by (simp add: stateMachine_eq beginShutdown_eq runStartupSequence_eq runShutdownSequence_eq
      buzzer_eq reapply_def split: SystemState.splits)

lemma trace_loop: "trace (loop i s) = trace s @ new_events i s"
proof -
  obtain a where a: "trace (stateMachine i (sense i s)) = trace s @ a"
    using trace_stateMachine [of i "sense i s"] by (auto simp: sense_fields)
  obtain b where "trace (loop i s) = (trace s @ a) @ b"
    using trace_broadcast [of i "stateMachine i (sense i s)"] a by (auto simp: loop_eq)
  then show ?thesis by (simp add: new_events_def)
qed

lemma run_events_trace:
  "ins \<noteq> [] \<Longrightarrow>
   filter (\<lambda>e. \<not> is_serial1 e) (drop (length (trace s)) (trace (last (run s ins))))
     = run_events s ins"
proof (induction ins arbitrary: s)
  case Nil
  then show ?case by simp
next
  case (Cons i "is")
  show ?case
  proof (cases "is = []")
    case True
    then show ?thesis by (simp add: local_events_def new_events_def)
  next
    case False
    have l: "last (run s (i # is)) = last (run (loop i s) is)"
      using False by (cases "is") simp_all
    let ?t = "trace (last (run (loop i s) is))"
    have ih: "filter (\<lambda>e. \<not> is_serial1 e) (drop (length (trace (loop i s))) ?t)
                = run_events (loop i s) is"
      using False by (rule Cons.IH)
    have g: "\<And>s ins. ins \<noteq> [] \<Longrightarrow> \<exists>e. trace (last (run s ins)) = trace s @ e"
    proof -
      fix s :: esp_c and ins :: "tick list"
      assume "ins \<noteq> []"
      then show "\<exists>e. trace (last (run s ins)) = trace s @ e"
      proof (induction ins arbitrary: s)
        case Nil
        then show ?case by simp
      next
        case (Cons i "is")
        show ?case
        proof (cases "is = []")
          case True
          then show ?thesis using trace_loop [of i s] by simp
        next
          case False
          then obtain e where "trace (last (run (loop i s) is)) = trace (loop i s) @ e"
            using Cons.IH by blast
          then have "trace (last (run s (i # is))) = trace s @ new_events i s @ e"
            using False by (cases "is") (simp_all add: trace_loop)
          then show ?thesis by blast
        qed
      qed
    qed
    obtain e where e: "?t = trace (loop i s) @ e" using g [OF False] by blast
    have A: "drop (length (trace s)) ?t = new_events i s @ e"
      by (simp add: e trace_loop)
    have "drop (length (trace (loop i s))) ?t = e"
      by (simp add: e)
    with ih have B: "filter (\<lambda>e. \<not> is_serial1 e) e = run_events (loop i s) is"
      by simp
    show ?thesis
      unfolding l A by (simp add: B local_events_def)
  qed
qed

lemma stages_in_stage:
  "4 \<in> set (stages_in (startup_stage k)) \<Longrightarrow> k = 4"
  by (simp add: stages_in_def startup_stage_def split: if_splits)

text \<open>A pass in the state Running with a power level other than 0 stays in Running and
  issues no staged action.\<close>

lemma buzzer_writes:
  "\<exists>b. trace (buzzer i s) = trace s @ b \<and> (b = [] \<or> (\<exists>v. b = [DigitalWrite 21 v]))"
  by (simp add: buzzer_eq)

lemma stages_in_local: "stages_in (filter (\<lambda>e. \<not> is_serial1 e) evs) = stages_in evs"
  by (simp add: stages_in_def startup_stage_def is_serial1_def)

lemma stages_in_none:
  assumes "\<forall>e \<in> set evs. \<forall>m. e = SerialOut m \<longrightarrow> take 7 m \<noteq> ''STARTUP''"
  shows "stages_in evs = []"
proof -
  have "hd (startup_stage k) \<notin> set evs" if "k \<in> {1, 2, 3, 4}" for k
  proof
    assume "hd (startup_stage k) \<in> set evs"
    moreover have "\<exists>m. hd (startup_stage k) = SerialOut m \<and> take 7 m = ''STARTUP''"
      using that by (auto simp: startup_stage_def)
    ultimately show False using assms by auto
  qed
  then show ?thesis by (simp add: stages_in_def)
qed

lemma running_pass:
  assumes st: "currentState s = STATE_RUNNING" and lvl: "currentPowerLevel (loop i s) \<noteq> 0"
  shows "currentState (loop i s) = STATE_RUNNING" and "stages_in (local_events i s) = []"
proof -
  let ?s1 = "sense i s"
  define L where "L = currentPowerLevel ?s1"
  have L: "L = 1 \<or> L = 2"
    using level_range [of i s] lvl by (auto simp: loop_fields L_def)
  have f: "currentState ?s1 = STATE_RUNNING" "trace ?s1 = trace s" "currentPowerLevel ?s1 \<noteq> 0"
    using st lvl by (simp_all add: sense_fields loop_fields)
  have sm: "stateMachine i ?s1 = buzzer i (reapply ?s1)"
    using f by (simp add: stateMachine_eq)
  show "currentState (loop i s) = STATE_RUNNING"
    using f by (simp add: loop_fields sm buzzer_eq reapply_def)
  define a where "a = (if L \<noteq> previousPowerLevel ?s1
      then [SerialOut ''Power Level changed to: '', SerialOut (print_long L @ CRLF)]
           @ steady_profile L else [])"
  have r: "trace (reapply ?s1) = trace s @ a"
    using f by (simp add: reapply_def a_def L_def)
  obtain b where b: "trace (buzzer i (reapply ?s1)) = trace (reapply ?s1) @ b"
    "b = [] \<or> (\<exists>v. b = [DigitalWrite 21 v])"
    using buzzer_writes [of i "reapply ?s1"] by blast
  have "trace (stateMachine i ?s1) = trace s @ (a @ b)" by (simp add: sm b(1) r)
  then have le: "local_events i s = filter (\<lambda>e. \<not> is_serial1 e) (a @ b)"
    by (rule local_events_split)
  have pl: "print_long 1 = ''1''" "print_long 2 = ''2''" by code_simp+
  have "\<forall>e \<in> set a. \<forall>m. e = SerialOut m \<longrightarrow> take 7 m \<noteq> ''STARTUP''"
    using L by (auto simp: a_def steady_profile_def pl CRLF_def)
  moreover have "\<forall>e \<in> set b. \<forall>m. e = SerialOut m \<longrightarrow> take 7 m \<noteq> ''STARTUP''"
    using b(2) by auto
  ultimately have "stages_in (a @ b) = []"
    by (intro stages_in_none) auto
  then show "stages_in (local_events i s) = []"
    unfolding le by (simp only: stages_in_local)
qed

lemma running_log:
  assumes "currentState s = STATE_RUNNING"
    and "\<forall>s' \<in> set (run s ins). currentPowerLevel s' \<noteq> 0"
  shows "startup_log s ins = [] \<and> (ins \<noteq> [] \<longrightarrow> currentState (last (run s ins)) = STATE_RUNNING)"
  using assms
proof (induction ins arbitrary: s)
  case Nil
  show ?case by simp
next
  case (Cons i "is")
  have lvl: "currentPowerLevel (loop i s) \<noteq> 0" using Cons.prems(2) by simp
  note p = running_pass [OF Cons.prems(1) lvl]
  have "\<forall>s' \<in> set (run (loop i s) is). currentPowerLevel s' \<noteq> 0" using Cons.prems(2) by simp
  with p(1) have ih: "startup_log (loop i s) is = []
      \<and> (is \<noteq> [] \<longrightarrow> currentState (last (run (loop i s) is)) = STATE_RUNNING)"
    by (rule Cons.IH)
  show ?case using p ih by (cases "is") simp_all
qed

text \<open>The staged actions of a run that starts in StartingUp at step \<open>k\<close>: the actions
  after \<open>k\<close>, one at each pass at which the window has elapsed.\<close>

lemma startup_log_from:
  assumes "currentState s = STATE_STARTING_UP" and "sequence_step s = k" and "k \<in> {1, 2, 3}"
    and "\<forall>s' \<in> set (run s ins). currentPowerLevel s' \<noteq> 0"
  shows "startup_log s ins
           = zip (filter (\<lambda>n. k < n) [1, 2, 3, 4]) (elapsed_passes (stateTimer s) ins)
       \<and> (ins \<noteq> [] \<longrightarrow> currentState (last (run s ins))
             = (if 4 \<le> k + int (length (elapsed_passes (stateTimer s) ins))
                then STATE_RUNNING else STATE_STARTING_UP))"
  using assms
proof (induction ins arbitrary: s k)
  case Nil
  show ?case by simp
next
  case (Cons i "is")
  let ?s' = "loop i s"
  have st: "currentState s = STATE_STARTING_UP" by fact
  have lvl: "currentPowerLevel ?s' \<noteq> 0" using Cons.prems(4) by simp
  have rest: "\<forall>s' \<in> set (run ?s' is). currentPowerLevel s' \<noteq> 0" using Cons.prems(4) by simp
  have l: "is \<noteq> [] \<Longrightarrow> last (run s (i # is)) = last (run ?s' is)" by (cases "is") simp_all
  note pass = starting_up_pass [OF st lvl]
  show ?case
  proof (cases "SEQUENCE_DELAY < t_check i - stateTimer s")
    case nel: False
    note p = pass(3) [OF nel]
    have ih: "startup_log ?s' is
           = zip (filter (\<lambda>n. k < n) [1, 2, 3, 4]) (elapsed_passes (stateTimer ?s') is)
       \<and> (is \<noteq> [] \<longrightarrow> currentState (last (run ?s' is))
             = (if 4 \<le> k + int (length (elapsed_passes (stateTimer ?s') is))
                then STATE_RUNNING else STATE_STARTING_UP))"
    proof (rule Cons.IH)
      show "currentState ?s' = STATE_STARTING_UP" using p by simp
      show "sequence_step ?s' = k" using p Cons.prems(2) by simp
      show "k \<in> {1, 2, 3}" by fact
      show "\<forall>s' \<in> set (run ?s' is). currentPowerLevel s' \<noteq> 0" by fact
    qed
    have t: "stateTimer ?s' = stateTimer s" using p by simp
    have e: "elapsed_passes (stateTimer s) (i # is) = elapsed_passes (stateTimer s) is"
      using nel by simp
    have lg: "startup_log s (i # is) = startup_log ?s' is"
      using p by (simp add: stages_in_simps)
    have A: "startup_log s (i # is)
        = zip (filter (\<lambda>n. k < n) [1, 2, 3, 4]) (elapsed_passes (stateTimer s) (i # is))"
      unfolding lg e using ih by (simp add: t)
    have B: "currentState (last (run s (i # is)))
        = (if 4 \<le> k + int (length (elapsed_passes (stateTimer s) (i # is)))
           then STATE_RUNNING else STATE_STARTING_UP)"
    proof (cases "is = []")
      case True
      then show ?thesis using p Cons.prems(3) nel by auto
    next
      case ne: False
      show ?thesis unfolding e l [OF ne] using ih ne by (simp add: t)
    qed
    from A B show ?thesis by simp
  next
    case el: True
    have e: "elapsed_passes (stateTimer s) (i # is) = i # elapsed_passes (t_stamp i) is"
      using el by simp
    show ?thesis
    proof (cases "k = 3")
      case k3: True
      have p: "currentState ?s' = STATE_RUNNING"
        "local_events i s = startup_stage 4 @ steady_profile (currentPowerLevel ?s')"
        using pass(2) [OF el] k3 Cons.prems(2) by simp_all
      note rl = running_log [OF p(1) rest]
      have lg: "startup_log s (i # is) = [(4, i)]"
        using p(2) rl by (simp add: stages_in_simps)
      have A: "startup_log s (i # is)
          = zip (filter (\<lambda>n. k < n) [1, 2, 3, 4]) (elapsed_passes (stateTimer s) (i # is))"
        unfolding lg e using k3 by simp
      have "currentState (last (run s (i # is))) = STATE_RUNNING"
        using p(1) rl by (cases "is") simp_all
      then have B: "currentState (last (run s (i # is)))
          = (if 4 \<le> k + int (length (elapsed_passes (stateTimer s) (i # is)))
             then STATE_RUNNING else STATE_STARTING_UP)"
        unfolding e using k3 by simp
      from A B show ?thesis by simp
    next
      case False
      then have k12: "k = 1 \<or> k = 2" using Cons.prems(3) by auto
      have p: "currentState ?s' = STATE_STARTING_UP \<and> sequence_step ?s' = k + 1
         \<and> stateTimer ?s' = t_stamp i \<and> local_events i s = startup_stage (k + 1)"
        using pass(1) [OF el] False Cons.prems(2) by simp
      have ih: "startup_log ?s' is
           = zip (filter (\<lambda>n. k + 1 < n) [1, 2, 3, 4]) (elapsed_passes (stateTimer ?s') is)
       \<and> (is \<noteq> [] \<longrightarrow> currentState (last (run ?s' is))
             = (if 4 \<le> (k + 1) + int (length (elapsed_passes (stateTimer ?s') is))
                then STATE_RUNNING else STATE_STARTING_UP))"
      proof (rule Cons.IH)
        show "currentState ?s' = STATE_STARTING_UP" using p by simp
        show "sequence_step ?s' = k + 1" using p by simp
        show "k + 1 \<in> {1, 2, 3}" using k12 by auto
        show "\<forall>s' \<in> set (run ?s' is). currentPowerLevel s' \<noteq> 0" by fact
      qed
      have t: "stateTimer ?s' = t_stamp i" using p by simp
      have lg: "startup_log s (i # is) = (k + 1, i) # startup_log ?s' is"
        using p k12 by (auto simp: stages_in_simps)
      have z: "zip (filter (\<lambda>n. k < n) [1, 2, 3, 4]) (i # elapsed_passes (t_stamp i) is)
          = (k + 1, i) # zip (filter (\<lambda>n. k + 1 < n) [1, 2, 3, 4]) (elapsed_passes (t_stamp i) is)"
        using k12 by auto
      have A: "startup_log s (i # is)
          = zip (filter (\<lambda>n. k < n) [1, 2, 3, 4]) (elapsed_passes (stateTimer s) (i # is))"
        unfolding lg e z using ih by (simp add: t)
      have B: "currentState (last (run s (i # is)))
          = (if 4 \<le> k + int (length (elapsed_passes (stateTimer s) (i # is)))
             then STATE_RUNNING else STATE_STARTING_UP)"
      proof (cases "is = []")
        case True
        have "currentState (last (run s [i])) = STATE_STARTING_UP" using p by simp
        moreover have "\<not> 4 \<le> k + int (length [i])" using k12 by auto
        ultimately show ?thesis unfolding e using True by simp
      next
        case ne: False
        show ?thesis unfolding e l [OF ne] using ih ne by (simp add: t add.assoc)
      qed
      from A B show ?thesis by simp
    qed
  qed
qed

lemma spaced_elapsed: "spaced (zip ks (j # elapsed_passes (t_stamp j) is))"
proof (induction "is" arbitrary: j ks)
  case Nil
  show ?case by (cases ks) simp_all
next
  case (Cons x xs)
  show ?case
  proof (cases "SEQUENCE_DELAY < t_check x - t_stamp j")
    case False
    then show ?thesis using Cons.IH [of ks j] by simp
  next
    case True
    show ?thesis
    proof (cases ks)
      case Nil
      then show ?thesis by simp
    next
      case k: (Cons k r)
      show ?thesis
      proof (cases r)
        case Nil
        then show ?thesis using k True by simp
      next
        case (Cons k' r')
        then show ?thesis using k True Cons.IH [of "k' # r'" x] by simp
      qed
    qed
  qed
qed

lemma run_level_range: "ins \<noteq> [] \<Longrightarrow> currentPowerLevel (last (run s ins)) \<in> {0, 1, 2}"
proof (induction ins arbitrary: s)
  case Nil
  then show ?case by simp
next
  case (Cons i "is")
  then show ?case using level_range [of i s] by (cases "is") simp_all
qed

text \<open>
  C2. A run starts in Idle and the power level is not 0 after any of its passes. Then
  the staged actions the run issues are settled by the clock alone: action 1 at the
  first pass, and each next action at the first pass at which the clock has moved by
  more than \<open>SEQUENCE_DELAY\<close> (5000 ms) past the time stamp of the pass of the action
  before, up to action 4 and no further; so there are never more than the four, they
  come in the order 1, 2, 3, 4, each once, and between two that follow each other the
  window has elapsed. After the run the state is Running if the window has elapsed
  three times since the first pass, and StartingUp if not. When the last pass of the
  run is the first to end in Running, the run has issued all four actions, the fourth
  at that last pass, and what it has written, the periodic message aside, is the writes
  of the four actions followed at once by the steady profile of the power level of that
  last pass, which is 1 or 2.

  Pass by pass, at whatever power level other than 0: a pass in Idle issues action 1,
  goes to StartingUp and stamps the time; a pass in StartingUp at which the window has
  elapsed issues the action after the current step and stamps the time, and when that
  action is the fourth it sets the state to Running and writes the steady profile of its
  power level right after the action; a pass in StartingUp at which the window has not
  elapsed writes nothing and changes neither the step nor the time stamp; and a pass in
  StartingUp that issues the fourth action ends in Running with the steady profile
  written.
\<close>

theorem startup_issues_four_staged_actions:
  assumes "currentState s = STATE_IDLE"
    and "\<forall>s' \<in> set (run s (i # is)). currentPowerLevel s' \<noteq> 0"
  shows "startup_log s (i # is) = zip [1, 2, 3, 4] (i # elapsed_passes (t_stamp i) is)
       \<and> currentState (last (run s (i # is)))
           = (if 3 \<le> length (elapsed_passes (t_stamp i) is)
              then STATE_RUNNING else STATE_STARTING_UP)
       \<and> spaced (startup_log s (i # is))
       \<and> SEQUENCE_DELAY = 5000
       \<and> (currentState (last (run s (i # is))) = STATE_RUNNING
           \<and> (\<forall>s' \<in> set (butlast (run s (i # is))). currentState s' \<noteq> STATE_RUNNING) \<longrightarrow>
             map fst (startup_log s (i # is)) = [1, 2, 3, 4]
           \<and> snd (last (startup_log s (i # is))) = last (i # is)
           \<and> filter (\<lambda>e. \<not> is_serial1 e)
                (drop (length (trace s)) (trace (last (run s (i # is)))))
               = startup_stage 1 @ startup_stage 2 @ startup_stage 3 @ startup_stage 4
                 @ steady_profile (currentPowerLevel (last (run s (i # is))))
           \<and> currentPowerLevel (last (run s (i # is))) \<in> {1, 2})
       \<and> (\<forall>i' s'. currentState s' = STATE_STARTING_UP \<and> currentPowerLevel (loop i' s') \<noteq> 0
              \<and> 4 \<in> set (stages_in (local_events i' s')) \<longrightarrow>
            currentState (loop i' s') = STATE_RUNNING
            \<and> local_events i' s'
                = startup_stage 4 @ steady_profile (currentPowerLevel (loop i' s')))
       \<and> (\<forall>i' s'. currentState s' = STATE_IDLE \<and> currentPowerLevel (loop i' s') \<noteq> 0 \<longrightarrow>
            currentState (loop i' s') = STATE_STARTING_UP
            \<and> sequence_step (loop i' s') = 1
            \<and> stateTimer (loop i' s') = t_stamp i'
            \<and> local_events i' s' = startup_stage 1)
       \<and> (\<forall>i' s'. currentState s' = STATE_STARTING_UP \<and> currentPowerLevel (loop i' s') \<noteq> 0
              \<and> SEQUENCE_DELAY < t_check i' - stateTimer s' \<longrightarrow>
            sequence_step (loop i' s') = sequence_step s' + 1
            \<and> stateTimer (loop i' s') = t_stamp i'
            \<and> currentState (loop i' s')
                = (if sequence_step s' = 3 then STATE_RUNNING else STATE_STARTING_UP)
            \<and> local_events i' s'
                = (if sequence_step s' = 3
                   then startup_stage 4 @ steady_profile (currentPowerLevel (loop i' s'))
                   else startup_stage (sequence_step s' + 1)))
       \<and> (\<forall>i' s'. currentState s' = STATE_STARTING_UP \<and> currentPowerLevel (loop i' s') \<noteq> 0
              \<and> \<not> SEQUENCE_DELAY < t_check i' - stateTimer s' \<longrightarrow>
            sequence_step (loop i' s') = sequence_step s'
            \<and> stateTimer (loop i' s') = stateTimer s'
            \<and> currentState (loop i' s') = STATE_STARTING_UP
            \<and> local_events i' s' = [])"
proof -
  let ?s' = "loop i s"
  have lvl: "currentPowerLevel ?s' \<noteq> 0" using assms(2) by simp
  have rest: "\<forall>s' \<in> set (run ?s' is). currentPowerLevel s' \<noteq> 0" using assms(2) by simp
  note p = idle_pass [OF assms(1) lvl]
  have p1: "currentState ?s' = STATE_STARTING_UP" "sequence_step ?s' = 1"
    "stateTimer ?s' = t_stamp i" using p by simp_all
  have one: "(1::int) \<in> {1, 2, 3}" by simp
  note fl = startup_log_from [OF p1(1,2) one rest, unfolded p1(3)]
  have lg: "startup_log s (i # is) = (1, i) # startup_log ?s' is"
    using p by (simp add: stages_in_simps)
  have d1: "startup_log s (i # is) = zip [1, 2, 3, 4] (i # elapsed_passes (t_stamp i) is)"
    unfolding lg using fl by simp
  have d2: "currentState (last (run s (i # is)))
           = (if 3 \<le> length (elapsed_passes (t_stamp i) is)
              then STATE_RUNNING else STATE_STARTING_UP)"
  proof (cases "is = []")
    case True
    then show ?thesis using p1(1) by simp
  next
    case False
    then have "last (run s (i # is)) = last (run ?s' is)" by (cases "is") simp_all
    then show ?thesis using fl False by simp
  qed
  have d3: "spaced (startup_log s (i # is))"
    unfolding d1 by (rule spaced_elapsed)
  have d5: "map fst (startup_log s (i # is)) = [1, 2, 3, 4]
           \<and> snd (last (startup_log s (i # is))) = last (i # is)
           \<and> filter (\<lambda>e. \<not> is_serial1 e)
                (drop (length (trace s)) (trace (last (run s (i # is)))))
               = startup_stage 1 @ startup_stage 2 @ startup_stage 3 @ startup_stage 4
                 @ steady_profile (currentPowerLevel (last (run s (i # is))))
           \<and> currentPowerLevel (last (run s (i # is))) \<in> {1, 2}"
    if a: "currentState (last (run s (i # is))) = STATE_RUNNING
           \<and> (\<forall>s' \<in> set (butlast (run s (i # is))). currentState s' \<noteq> STATE_RUNNING)"
  proof -
    have a4: "currentState (last (run s (i # is))) = STATE_RUNNING" using a by simp
    have a5: "\<forall>s' \<in> set (butlast (run s (i # is))). currentState s' \<noteq> STATE_RUNNING"
      using a by simp
    have ne: "is \<noteq> []"
    proof
      assume "is = []"
      with a4 p show False by simp
    qed
    have l: "last (run s (i # is)) = last (run ?s' is)" using ne by (cases "is") simp_all
    have fr: "map fst (startup_log ?s' is) = filter (\<lambda>n. 1 < n) [1, 2, 3, 4]
         \<and> spaced ((1, i) # startup_log ?s' is)
         \<and> run_events ?s' is = concat (map startup_stage (filter (\<lambda>n. 1 < n) [1, 2, 3, 4]))
                                @ steady_profile (currentPowerLevel (last (run ?s' is)))
         \<and> snd (last (startup_log ?s' is)) = last is"
    proof (rule startup_from)
      show "currentState ?s' = STATE_STARTING_UP" using p by simp
      show "sequence_step ?s' = 1" using p by simp
      show "(1::int) \<in> {1, 2, 3}" by simp
      show "\<forall>s' \<in> set (run ?s' is). currentPowerLevel s' \<noteq> 0" by fact
      show "is \<noteq> []" by fact
      show "currentState (last (run ?s' is)) = STATE_RUNNING" using a4 l by simp
      show "\<forall>s' \<in> set (butlast (run ?s' is)). currentState s' \<noteq> STATE_RUNNING"
        using a5 ne by (cases "is") simp_all
      show "t_stamp i = stateTimer ?s'" using p by simp
    qed
    have nl: "startup_log ?s' is \<noteq> []" using fr by auto
    have c1: "map fst (startup_log s (i # is)) = [1, 2, 3, 4]" unfolding lg using fr by simp
    have c3: "snd (last (startup_log s (i # is))) = last (i # is)"
      unfolding lg using fr nl ne by simp
    have re: "run_events s (i # is) = startup_stage 1 @ run_events ?s' is" using p by simp
    have "run_events s (i # is)
             = startup_stage 1 @ startup_stage 2 @ startup_stage 3 @ startup_stage 4
               @ steady_profile (currentPowerLevel (last (run s (i # is))))"
      unfolding l re using fr by simp
    then have c4: "filter (\<lambda>e. \<not> is_serial1 e)
                (drop (length (trace s)) (trace (last (run s (i # is)))))
             = startup_stage 1 @ startup_stage 2 @ startup_stage 3 @ startup_stage 4
               @ steady_profile (currentPowerLevel (last (run s (i # is))))"
      using run_events_trace [of "i # is" s] by simp
    have "last (run s (i # is)) \<in> set (run s (i # is))" by simp
    then have "currentPowerLevel (last (run s (i # is))) \<noteq> 0" using assms(2) by blast
    moreover have "currentPowerLevel (last (run s (i # is))) \<in> {0, 1, 2}"
      by (rule run_level_range) simp
    ultimately have c5: "currentPowerLevel (last (run s (i # is))) \<in> {1, 2}" by auto
    from c1 c3 c4 c5 show ?thesis by simp
  qed
  have d6: "\<forall>i' s'. currentState s' = STATE_STARTING_UP \<and> currentPowerLevel (loop i' s') \<noteq> 0
              \<and> 4 \<in> set (stages_in (local_events i' s')) \<longrightarrow>
            currentState (loop i' s') = STATE_RUNNING
            \<and> local_events i' s'
                = startup_stage 4 @ steady_profile (currentPowerLevel (loop i' s'))"
  proof (intro allI impI)
    fix i' s'
    assume a: "currentState s' = STATE_STARTING_UP \<and> currentPowerLevel (loop i' s') \<noteq> 0
              \<and> 4 \<in> set (stages_in (local_events i' s'))"
    then have st: "currentState s' = STATE_STARTING_UP"
      and lv: "currentPowerLevel (loop i' s') \<noteq> 0"
      and four: "4 \<in> set (stages_in (local_events i' s'))" by simp_all
    note q = starting_up_pass [OF st lv]
    have el: "SEQUENCE_DELAY < t_check i' - stateTimer s'"
    proof (rule ccontr)
      assume "\<not> SEQUENCE_DELAY < t_check i' - stateTimer s'"
      from q(3) [OF this] four show False by (simp add: stages_in_simps)
    qed
    have "sequence_step s' = 3"
    proof (rule ccontr)
      assume n: "sequence_step s' \<noteq> 3"
      from q(1) [OF el n] four have "sequence_step s' + 1 = 4"
        by (auto dest: stages_in_stage)
      with n show False by simp
    qed
    from q(2) [OF el this]
    show "currentState (loop i' s') = STATE_RUNNING
            \<and> local_events i' s'
                = startup_stage 4 @ steady_profile (currentPowerLevel (loop i' s'))"
      by simp
  qed
  have d7: "\<forall>i' s'. currentState s' = STATE_IDLE \<and> currentPowerLevel (loop i' s') \<noteq> 0 \<longrightarrow>
            currentState (loop i' s') = STATE_STARTING_UP
            \<and> sequence_step (loop i' s') = 1
            \<and> stateTimer (loop i' s') = t_stamp i'
            \<and> local_events i' s' = startup_stage 1"
    using idle_pass by blast
  have d8: "\<forall>i' s'. currentState s' = STATE_STARTING_UP \<and> currentPowerLevel (loop i' s') \<noteq> 0
              \<and> SEQUENCE_DELAY < t_check i' - stateTimer s' \<longrightarrow>
            sequence_step (loop i' s') = sequence_step s' + 1
            \<and> stateTimer (loop i' s') = t_stamp i'
            \<and> currentState (loop i' s')
                = (if sequence_step s' = 3 then STATE_RUNNING else STATE_STARTING_UP)
            \<and> local_events i' s'
                = (if sequence_step s' = 3
                   then startup_stage 4 @ steady_profile (currentPowerLevel (loop i' s'))
                   else startup_stage (sequence_step s' + 1))"
  proof (intro allI impI)
    fix i' s'
    assume a: "currentState s' = STATE_STARTING_UP \<and> currentPowerLevel (loop i' s') \<noteq> 0
              \<and> SEQUENCE_DELAY < t_check i' - stateTimer s'"
    then have st: "currentState s' = STATE_STARTING_UP"
      and lv: "currentPowerLevel (loop i' s') \<noteq> 0"
      and el: "SEQUENCE_DELAY < t_check i' - stateTimer s'" by simp_all
    note q = starting_up_pass [OF st lv]
    show "sequence_step (loop i' s') = sequence_step s' + 1
            \<and> stateTimer (loop i' s') = t_stamp i'
            \<and> currentState (loop i' s')
                = (if sequence_step s' = 3 then STATE_RUNNING else STATE_STARTING_UP)
            \<and> local_events i' s'
                = (if sequence_step s' = 3
                   then startup_stage 4 @ steady_profile (currentPowerLevel (loop i' s'))
                   else startup_stage (sequence_step s' + 1))"
    proof (cases "sequence_step s' = 3")
      case True
      from q(2) [OF el True] True show ?thesis by simp
    next
      case False
      from q(1) [OF el False] False show ?thesis by simp
    qed
  qed
  have d9: "\<forall>i' s'. currentState s' = STATE_STARTING_UP \<and> currentPowerLevel (loop i' s') \<noteq> 0
              \<and> \<not> SEQUENCE_DELAY < t_check i' - stateTimer s' \<longrightarrow>
            sequence_step (loop i' s') = sequence_step s'
            \<and> stateTimer (loop i' s') = stateTimer s'
            \<and> currentState (loop i' s') = STATE_STARTING_UP
            \<and> local_events i' s' = []"
    using starting_up_pass(3) by blast
  have d4: "SEQUENCE_DELAY = 5000" by (simp add: SEQUENCE_DELAY_def)
  from d5 have d5': "currentState (last (run s (i # is))) = STATE_RUNNING
           \<and> (\<forall>s' \<in> set (butlast (run s (i # is))). currentState s' \<noteq> STATE_RUNNING) \<longrightarrow>
             map fst (startup_log s (i # is)) = [1, 2, 3, 4]
           \<and> snd (last (startup_log s (i # is))) = last (i # is)
           \<and> filter (\<lambda>e. \<not> is_serial1 e)
                (drop (length (trace s)) (trace (last (run s (i # is)))))
               = startup_stage 1 @ startup_stage 2 @ startup_stage 3 @ startup_stage 4
                 @ steady_profile (currentPowerLevel (last (run s (i # is))))
           \<and> currentPowerLevel (last (run s (i # is))) \<in> {1, 2}"
    by (rule impI)
  show ?thesis
    by (intro conjI) (fact d1, fact d2, fact d3, fact d4, fact d5', fact d6, fact d7, fact d8, fact d9)
qed

theorem startup_issues_four_staged_actions_witness:
  "map fst (startup_log rods_25_20
      [quiet_tick 10, quiet_tick 3000, quiet_tick 5011, quiet_tick 10012, quiet_tick 15013])
     = [1, 2, 3, 4]
   \<and> spaced (startup_log rods_25_20
      [quiet_tick 10, quiet_tick 3000, quiet_tick 5011, quiet_tick 10012, quiet_tick 15013])
   \<and> snd (last (startup_log rods_25_20
      [quiet_tick 10, quiet_tick 3000, quiet_tick 5011, quiet_tick 10012, quiet_tick 15013]))
     = quiet_tick 15013
   \<and> currentPowerLevel (last (run rods_25_20
      [quiet_tick 10, quiet_tick 3000, quiet_tick 5011, quiet_tick 10012, quiet_tick 15013])) = 1
   \<and> startup_log rods_45_35
        [quiet_tick 10, quiet_tick 3000, quiet_tick 5011, quiet_tick 10012, quiet_tick 15013]
       = [(1, quiet_tick 10), (2, quiet_tick 5011), (3, quiet_tick 10012), (4, quiet_tick 15013)]
   \<and> currentState (last (run rods_45_35
        [quiet_tick 10, quiet_tick 3000, quiet_tick 5011, quiet_tick 10012, quiet_tick 15013]))
       = STATE_RUNNING
   \<and> filter (\<lambda>e. \<not> is_serial1 e) (drop (length (trace rods_45_35)) (trace (last (run rods_45_35
        [quiet_tick 10, quiet_tick 3000, quiet_tick 5011, quiet_tick 10012, quiet_tick 15013]))))
       = startup_stage 1 @ startup_stage 2 @ startup_stage 3 @ startup_stage 4 @ steady_profile 2
   \<and> startup_log rods_45_35
        [quiet_tick 10, quiet_tick 3000, quiet_tick 5011, quiet_tick 10011, quiet_tick 10012]
       = [(1, quiet_tick 10), (2, quiet_tick 5011), (3, quiet_tick 10012)]
   \<and> currentState (last (run rods_45_35
        [quiet_tick 10, quiet_tick 3000, quiet_tick 5011, quiet_tick 10011, quiet_tick 10012]))
       = STATE_STARTING_UP
   \<and> startup_log rods_45_35
        [quiet_tick 10, quiet_tick 5011, quiet_tick 10012, quiet_tick 15013, quiet_tick 20014,
         quiet_tick 25015]
       = [(1, quiet_tick 10), (2, quiet_tick 5011), (3, quiet_tick 10012), (4, quiet_tick 15013)]
   \<and> sequence_step (loop (quiet_tick 5011) (loop (quiet_tick 10) rods_45_35)) = 2
   \<and> local_events (quiet_tick 5011) (loop (quiet_tick 10) rods_45_35) = startup_stage 2"
proof -
  let ?ins = "[quiet_tick 3000, quiet_tick 5011, quiet_tick 10012, quiet_tick 15013]"
  let ?short = "[quiet_tick 3000, quiet_tick 5011, quiet_tick 10011, quiet_tick 10012]"
  let ?long = "[quiet_tick 5011, quiet_tick 10012, quiet_tick 15013, quiet_tick 20014,
      quiet_tick 25015]"
  have ts: "t_stamp (quiet_tick 10) = 10" by (simp add: quiet_tick_def)
  have e1: "elapsed_passes 10 ?ins = [quiet_tick 5011, quiet_tick 10012, quiet_tick 15013]"
    by (simp add: quiet_tick_def SEQUENCE_DELAY_def)
  have e2: "elapsed_passes 10 ?short = [quiet_tick 5011, quiet_tick 10012]"
    by (simp add: quiet_tick_def SEQUENCE_DELAY_def)
  have e3: "elapsed_passes 10 ?long
      = [quiet_tick 5011, quiet_tick 10012, quiet_tick 15013, quiet_tick 20014, quiet_tick 25015]"
    by (simp add: quiet_tick_def SEQUENCE_DELAY_def)
  have a1: "currentState rods_25_20 = STATE_IDLE" by code_simp
  have a2: "\<forall>s' \<in> set (run rods_25_20 (quiet_tick 10 # ?ins)). currentPowerLevel s' \<noteq> 0"
    by code_simp
  have a4: "currentState (last (run rods_25_20 (quiet_tick 10 # ?ins))) = STATE_RUNNING"
    by code_simp
  have a5: "\<forall>s' \<in> set (butlast (run rods_25_20 (quiet_tick 10 # ?ins))).
      currentState s' \<noteq> STATE_RUNNING"
    by code_simp
  have lv1: "currentPowerLevel (last (run rods_25_20 (quiet_tick 10 # ?ins))) = 1" by code_simp
  note T1 = startup_issues_four_staged_actions [OF a1 a2]
  note R1 = T1 [THEN conjunct2, THEN conjunct2, THEN conjunct2, THEN conjunct2, THEN conjunct1,
      THEN mp, OF conjI [OF a4 a5]]
  have w1: "map fst (startup_log rods_25_20 (quiet_tick 10 # ?ins)) = [1, 2, 3, 4]"
    by (rule R1 [THEN conjunct1])
  have la: "last (quiet_tick 10 # ?ins) = quiet_tick 15013" by simp
  have w3: "snd (last (startup_log rods_25_20 (quiet_tick 10 # ?ins))) = quiet_tick 15013"
    using R1 [THEN conjunct2, THEN conjunct1] unfolding la .
  have w2: "spaced (startup_log rods_25_20 (quiet_tick 10 # ?ins))"
    by (rule T1 [THEN conjunct2, THEN conjunct2, THEN conjunct1])
  have b1: "currentState rods_45_35 = STATE_IDLE" by code_simp
  have b2: "\<forall>s' \<in> set (run rods_45_35 (quiet_tick 10 # ?ins)). currentPowerLevel s' \<noteq> 0"
    by code_simp
  have b5: "\<forall>s' \<in> set (butlast (run rods_45_35 (quiet_tick 10 # ?ins))).
      currentState s' \<noteq> STATE_RUNNING"
    by code_simp
  have lv2: "currentPowerLevel (last (run rods_45_35 (quiet_tick 10 # ?ins))) = 2" by code_simp
  note T2 = startup_issues_four_staged_actions [OF b1 b2, unfolded ts e1]
  have w5: "startup_log rods_45_35 (quiet_tick 10 # ?ins)
       = [(1, quiet_tick 10), (2, quiet_tick 5011), (3, quiet_tick 10012), (4, quiet_tick 15013)]"
    using T2 [THEN conjunct1] by simp
  have w6: "currentState (last (run rods_45_35 (quiet_tick 10 # ?ins))) = STATE_RUNNING"
    using T2 [THEN conjunct2, THEN conjunct1] by simp
  note R2 = T2 [THEN conjunct2, THEN conjunct2, THEN conjunct2, THEN conjunct2, THEN conjunct1,
      THEN mp, OF conjI [OF w6 b5]]
  have w7: "filter (\<lambda>e. \<not> is_serial1 e) (drop (length (trace rods_45_35))
        (trace (last (run rods_45_35 (quiet_tick 10 # ?ins)))))
       = startup_stage 1 @ startup_stage 2 @ startup_stage 3 @ startup_stage 4 @ steady_profile 2"
    using R2 [THEN conjunct2, THEN conjunct2, THEN conjunct1] unfolding lv2 .
  have c2: "\<forall>s' \<in> set (run rods_45_35 (quiet_tick 10 # ?short)). currentPowerLevel s' \<noteq> 0"
    by code_simp
  note T3 = startup_issues_four_staged_actions [OF b1 c2, unfolded ts e2]
  have w8: "startup_log rods_45_35 (quiet_tick 10 # ?short)
       = [(1, quiet_tick 10), (2, quiet_tick 5011), (3, quiet_tick 10012)]"
    using T3 [THEN conjunct1] by simp
  have w9: "currentState (last (run rods_45_35 (quiet_tick 10 # ?short))) = STATE_STARTING_UP"
    using T3 [THEN conjunct2, THEN conjunct1] by simp
  have d2: "\<forall>s' \<in> set (run rods_45_35 (quiet_tick 10 # ?long)). currentPowerLevel s' \<noteq> 0"
    by code_simp
  note T4 = startup_issues_four_staged_actions [OF b1 d2, unfolded ts e3]
  have w10: "startup_log rods_45_35 (quiet_tick 10 # ?long)
       = [(1, quiet_tick 10), (2, quiet_tick 5011), (3, quiet_tick 10012), (4, quiet_tick 15013)]"
    using T4 [THEN conjunct1] by simp
  have f: "currentState (loop (quiet_tick 10) rods_45_35) = STATE_STARTING_UP"
    "currentPowerLevel (loop (quiet_tick 5011) (loop (quiet_tick 10) rods_45_35)) \<noteq> 0"
    "stateTimer (loop (quiet_tick 10) rods_45_35) = 10"
    "sequence_step (loop (quiet_tick 10) rods_45_35) = 1"
    by code_simp+
  have g: "SEQUENCE_DELAY < t_check (quiet_tick 5011) - stateTimer (loop (quiet_tick 10) rods_45_35)"
    unfolding f(3) by (simp add: quiet_tick_def SEQUENCE_DELAY_def)
  note P = T2 [THEN conjunct2, THEN conjunct2, THEN conjunct2, THEN conjunct2, THEN conjunct2,
      THEN conjunct2, THEN conjunct2, THEN conjunct1, rule_format,
      of "loop (quiet_tick 10) rods_45_35" "quiet_tick 5011"]
  have w11: "sequence_step (loop (quiet_tick 5011) (loop (quiet_tick 10) rods_45_35)) = 2"
    and w12: "local_events (quiet_tick 5011) (loop (quiet_tick 10) rods_45_35) = startup_stage 2"
    using P f g by simp_all
  from w1 w2 w3 lv1 w5 w6 w7 w8 w9 w10 w11 w12 show ?thesis by blast
qed

section \<open>ESP-C: leaving the startup, and the state Running\<close>

lemma shutting_down_pass:
  assumes "currentState s = STATE_SHUTTING_DOWN"
  shows "currentState (loop i s) = STATE_SHUTTING_DOWN \<or> currentState (loop i s) = STATE_IDLE"
proof -
  have "currentState (sense i s) = STATE_SHUTTING_DOWN" using assms by (simp add: sense_fields)
  then show ?thesis
    by (simp add: loop_fields stateMachine_eq runShutdownSequence_eq)
qed

lemma shutdown_never_running:
  assumes "currentState s = STATE_SHUTTING_DOWN" and "n < length ins"
    and "\<forall>m < n. currentState (run s ins ! m) = STATE_SHUTTING_DOWN"
  shows "currentState (run s ins ! n) \<noteq> STATE_RUNNING"
  using assms
proof (induction ins arbitrary: s n)
  case Nil
  then show ?case by simp
next
  case (Cons i "is")
  show ?case
  proof (cases n)
    case 0
    then show ?thesis using shutting_down_pass [OF Cons.prems(1), of i] by auto
  next
    case (Suc n')
    have "currentState (run s (i # is) ! 0) = STATE_SHUTTING_DOWN"
      using Cons.prems(3) Suc by blast
    then have st: "currentState (loop i s) = STATE_SHUTTING_DOWN" by simp
    have "\<forall>m < n'. currentState (run (loop i s) is ! m) = STATE_SHUTTING_DOWN"
    proof (intro allI impI)
      fix m assume "m < n'"
      then have "Suc m < n" using Suc by simp
      then have "currentState (run s (i # is) ! Suc m) = STATE_SHUTTING_DOWN"
        using Cons.prems(3) by blast
      then show "currentState (run (loop i s) is ! m) = STATE_SHUTTING_DOWN" by simp
    qed
    moreover have "n' < length is" using Cons.prems(2) Suc by simp
    ultimately have "currentState (run (loop i s) is ! n') \<noteq> STATE_RUNNING"
      using st by (intro Cons.IH)
    then show ?thesis using Suc by simp
  qed
qed

text \<open>
  C3. A pass starts in StartingUp and its power level is 0. Then the pass ends in
  ShuttingDown with the step cursor at 1; it writes, in this order, every relay off
  (\<open>HIGH\<close>), the buzzer off, every motor at duty 0, and only then the first step of the
  shutdown (a line of text), the periodic message aside; the buzzer flag is off; and in
  every run that follows, as long as the passes before have ended in ShuttingDown, the
  next pass does not end in Running (it ends in ShuttingDown or in Idle).
\<close>

theorem aborted_startup_goes_straight_to_shutdown:
  assumes "currentState s = STATE_STARTING_UP" and "currentPowerLevel (loop i s) = 0"
  shows "currentState (loop i s) = STATE_SHUTTING_DOWN
       \<and> sequence_step (loop i s) = 1
       \<and> stateTimer (loop i s) = t_stamp i
       \<and> \<not> isBuzzerOn (loop i s)
       \<and> local_events i s = all_off @ shutdown_stage 1
       \<and> all_off = [DigitalWrite STEAM_HUMID_1_PIN RELAY_OFF, DigitalWrite STEAM_HUMID_2_PIN RELAY_OFF,
                    DigitalWrite CONDENSOR_HUMID_PIN RELAY_OFF, DigitalWrite COOLTOWER_HUMID_1_PIN RELAY_OFF,
                    DigitalWrite COOLTOWER_HUMID_2_PIN RELAY_OFF, DigitalWrite BUZZER_PIN LOW,
                    LedcWrite PWM_CH_STEAM_FAN 0, LedcWrite PWM_CH_TURBINE 0,
                    LedcWrite PWM_CH_CONDENSOR 0, LedcWrite PWM_CH_COOLTOWER 0]
       \<and> (\<forall>ins n. n < length ins
              \<and> (\<forall>m < n. currentState (run (loop i s) ins ! m) = STATE_SHUTTING_DOWN) \<longrightarrow>
            currentState (run (loop i s) ins ! n) \<noteq> STATE_RUNNING)"
proof -
  let ?s1 = "sense i s"
  have f: "currentState ?s1 = STATE_STARTING_UP" "trace ?s1 = trace s" "currentPowerLevel ?s1 = 0"
    using assms by (simp_all add: sense_fields loop_fields)
  have sm: "stateMachine i ?s1 = ?s1\<lparr>currentState := STATE_SHUTTING_DOWN, sequence_step := 1,
      stateTimer := t_stamp i, isBuzzerOn := False,
      trace := trace s @ all_off @ shutdown_stage 1\<rparr>"
    using f by (simp add: stateMachine_eq beginShutdown_eq)
  have "local_events i s = filter (\<lambda>e. \<not> is_serial1 e) (all_off @ shutdown_stage 1)"
    by (rule local_events_split) (simp add: sm)
  then have ev: "local_events i s = all_off @ shutdown_stage 1" by (simp add: local_fixed)
  have st: "currentState (loop i s) = STATE_SHUTTING_DOWN" by (simp add: loop_fields sm)
  have nr: "\<forall>ins n. n < length ins
              \<and> (\<forall>m < n. currentState (run (loop i s) ins ! m) = STATE_SHUTTING_DOWN) \<longrightarrow>
            currentState (run (loop i s) ins ! n) \<noteq> STATE_RUNNING"
    using shutdown_never_running [OF st] by blast
  have ao: "all_off = [DigitalWrite STEAM_HUMID_1_PIN RELAY_OFF, DigitalWrite STEAM_HUMID_2_PIN RELAY_OFF,
                    DigitalWrite CONDENSOR_HUMID_PIN RELAY_OFF, DigitalWrite COOLTOWER_HUMID_1_PIN RELAY_OFF,
                    DigitalWrite COOLTOWER_HUMID_2_PIN RELAY_OFF, DigitalWrite BUZZER_PIN LOW,
                    LedcWrite PWM_CH_STEAM_FAN 0, LedcWrite PWM_CH_TURBINE 0,
                    LedcWrite PWM_CH_CONDENSOR 0, LedcWrite PWM_CH_COOLTOWER 0]"
    by (simp add: all_off_def pin_defs)
  show ?thesis
    using st ev nr ao by (simp add: loop_fields sm)
qed

theorem aborted_startup_goes_straight_to_shutdown_witness:
  "currentState (loop (rods_low_tick 3000) (loop (quiet_tick 10) rods_25_20)) = STATE_SHUTTING_DOWN
   \<and> sequence_step (loop (rods_low_tick 3000) (loop (quiet_tick 10) rods_25_20)) = 1
   \<and> local_events (rods_low_tick 3000) (loop (quiet_tick 10) rods_25_20)
       = all_off @ shutdown_stage 1
   \<and> map currentState (run (loop (rods_low_tick 3000) (loop (quiet_tick 10) rods_25_20))
        [quiet_tick 8001, quiet_tick 13002, quiet_tick 18003])
       = [STATE_SHUTTING_DOWN, STATE_SHUTTING_DOWN, STATE_IDLE]
   \<and> currentState (run (loop (rods_low_tick 3000) (loop (quiet_tick 10) rods_25_20))
        [quiet_tick 8001, quiet_tick 13002, quiet_tick 18003] ! 2) \<noteq> STATE_RUNNING"
proof -
  let ?s = "loop (quiet_tick 10) rods_25_20"
  let ?i = "rods_low_tick 3000"
  let ?ins = "[quiet_tick 8001, quiet_tick 13002, quiet_tick 18003]"
  have h1: "currentState ?s = STATE_STARTING_UP" by code_simp
  have h2: "currentPowerLevel (loop ?i ?s) = 0" by code_simp
  note T = aborted_startup_goes_straight_to_shutdown [OF h1 h2]
  have r: "map currentState (run (loop ?i ?s) ?ins)
       = [STATE_SHUTTING_DOWN, STATE_SHUTTING_DOWN, STATE_IDLE]" by code_simp
  have pre: "(2::nat) < length ?ins
     \<and> (\<forall>m < 2. currentState (run (loop ?i ?s) ?ins ! m) = STATE_SHUTTING_DOWN)"
  proof (intro conjI allI impI)
    show "(2::nat) < length ?ins" by simp
    fix m :: nat assume "m < 2"
    then have "m = 0 \<or> m = 1" by auto
    moreover have "map currentState (run (loop ?i ?s) ?ins) ! 0 = STATE_SHUTTING_DOWN"
      "map currentState (run (loop ?i ?s) ?ins) ! 1 = STATE_SHUTTING_DOWN"
      unfolding r by simp_all
    ultimately show "currentState (run (loop ?i ?s) ?ins ! m) = STATE_SHUTTING_DOWN"
      by auto
  qed
  have "currentState (run (loop ?i ?s) ?ins ! 2) \<noteq> STATE_RUNNING"
    using T pre by blast
  with T r show ?thesis by simp
qed

lemma actuator_writes_append: "actuator_writes (a @ b) = actuator_writes a @ actuator_writes b"
  by (simp add: actuator_writes_def)

lemma actuator_writes_profile: "actuator_writes (steady_profile level) = steady_profile level"
  by (simp add: actuator_writes_def steady_profile_def BUZZER_PIN_def)

lemma broadcast_actuators:
  "\<exists>b. trace (broadcast i s) = trace s @ b \<and> actuator_writes b = []"
  by (simp add: broadcast_eq status_frame_def actuator_writes_def)

lemma buzzer_actuators:
  "\<exists>b. trace (buzzer i s) = trace s @ b \<and> actuator_writes b = []"
  by (simp add: buzzer_eq actuator_writes_def BUZZER_PIN_def)

lemma buzzer_state: "currentState (buzzer i s) = currentState s"
  by (simp add: buzzer_eq)

text \<open>
  C7. A pass starts in Running and its power level is not 0. Then the pass stays in
  Running, and its writes to the relays and PWM channels are the steady profile of its
  power level when that level differs from the level of the pass before (which the pass
  has recorded in \<open>previousPowerLevel\<close>), and none at all when the two levels are equal.
  The profile is never empty, so it is written if and only if the level has changed. The
  buzzer's writes are not counted.
\<close>

theorem steady_profile_written_on_change_only:
  assumes "currentState s = STATE_RUNNING" and "currentPowerLevel (loop i s) \<noteq> 0"
  shows "actuator_writes (new_events i s) =
           (if currentPowerLevel (loop i s) \<noteq> currentPowerLevel s
            then steady_profile (currentPowerLevel (loop i s)) else [])
       \<and> steady_profile (currentPowerLevel (loop i s)) \<noteq> []
       \<and> previousPowerLevel (loop i s) = currentPowerLevel s
       \<and> currentState (loop i s) = STATE_RUNNING"
proof -
  let ?s1 = "sense i s"
  define L where "L = currentPowerLevel (loop i s)"
  have L: "L = 1 \<or> L = 2" using level_range [of i s] assms(2) by (auto simp: L_def)
  have f: "currentState ?s1 = STATE_RUNNING" "trace ?s1 = trace s" "currentPowerLevel ?s1 = L"
    "previousPowerLevel ?s1 = currentPowerLevel s"
    using assms by (simp_all add: sense_fields loop_fields L_def)
  define a where "a = (if L \<noteq> currentPowerLevel s
            then [SerialOut ''Power Level changed to: '', SerialOut (print_long L @ CRLF)]
                 @ steady_profile L
            else [])"
  have ra: "trace (reapply ?s1) = trace s @ a" "currentState (reapply ?s1) = STATE_RUNNING"
    using f by (simp_all add: reapply_def a_def)
  have sm: "stateMachine i ?s1 = buzzer i (reapply ?s1)"
    using f L by (auto simp: stateMachine_eq)
  obtain b where b: "trace (buzzer i (reapply ?s1)) = trace (reapply ?s1) @ b"
      "actuator_writes b = []"
    using buzzer_actuators by blast
  obtain c where c: "trace (broadcast i (stateMachine i ?s1)) = trace (stateMachine i ?s1) @ c"
      "actuator_writes c = []"
    using broadcast_actuators by blast
  have "trace (loop i s) = trace (broadcast i (stateMachine i ?s1))" by (simp add: loop_eq)
  also have "\<dots> = trace (stateMachine i ?s1) @ c" by (rule c(1))
  also have "trace (stateMachine i ?s1) = (trace s @ a) @ b"
    unfolding sm b(1) ra(1) by (rule refl)
  finally have "trace (loop i s) = trace s @ (a @ b @ c)" by simp
  then
  have "new_events i s = a @ b @ c" by (simp add: new_events_def)
  then have "actuator_writes (new_events i s) = actuator_writes a"
    by (simp add: actuator_writes_append b(2) c(2))
  also have "\<dots> = (if L \<noteq> currentPowerLevel s then steady_profile L else [])"
  proof (cases "L \<noteq> currentPowerLevel s")
    case True
    have "actuator_writes (SerialOut ''Power Level changed to: '' #
            SerialOut (print_long L @ CRLF) # steady_profile L)
          = actuator_writes (steady_profile L)"
      by (simp add: actuator_writes_def)
    with True show ?thesis
      by (simp add: a_def actuator_writes_profile)
  next
    case False
    then show ?thesis by (simp add: a_def actuator_writes_def)
  qed
  finally have w: "actuator_writes (new_events i s)
      = (if L \<noteq> currentPowerLevel s then steady_profile L else [])" .
  have ne: "steady_profile L \<noteq> []" using L by (auto simp: steady_profile_def)
  have pv: "previousPowerLevel (loop i s) = currentPowerLevel s"
    using readings_loop [of i s] f by (simp add: readings_def)
  have st: "currentState (loop i s) = STATE_RUNNING"
    by (simp add: loop_fields sm buzzer_state ra)
  from w ne pv st show ?thesis unfolding L_def by simp
qed

theorem steady_profile_written_on_change_only_witness:
  "actuator_writes (new_events (rods_high_tick 16000) running_level1) = steady_profile 2
   \<and> actuator_writes (new_events (quiet_tick 16010) (loop (rods_high_tick 16000) running_level1)) = []"
proof -
  let ?s = "running_level1"
  let ?i = "rods_high_tick 16000"
  have h1: "currentState ?s = STATE_RUNNING" by code_simp
  have h2: "currentPowerLevel (loop ?i ?s) \<noteq> 0" by code_simp
  have l1: "currentPowerLevel (loop ?i ?s) = 2" "currentPowerLevel ?s = 1" by code_simp+
  note T1 = steady_profile_written_on_change_only [OF h1 h2]
  let ?s' = "loop ?i ?s"
  let ?i' = "quiet_tick 16010"
  have g1: "currentState ?s' = STATE_RUNNING" by code_simp
  have g2: "currentPowerLevel (loop ?i' ?s') \<noteq> 0" by code_simp
  have l2: "currentPowerLevel (loop ?i' ?s') = 2" by code_simp
  note T2 = steady_profile_written_on_change_only [OF g1 g2]
  from T1 T2 show ?thesis by (simp add: l1 l2)
qed

section \<open>ESP-C: the parser and the tokens of a payload\<close>

lemma split_semi_takeWhile:
  "split_semi cs = takeWhile (\<lambda>c. c \<noteq> CHR '';'') cs
     # (case dropWhile (\<lambda>c. c \<noteq> CHR '';'') cs of [] \<Rightarrow> [] | x # r \<Rightarrow> split_semi r)"
  by (induction cs) (auto split: list.splits)

lemma tokens_skip: "tokens (dropWhile (\<lambda>c. c = CHR '';'') p) = tokens p"
  by (induction p) (simp_all add: tokens_def)

lemma tokens_Nil: "tokens [] = []"
  by (simp add: tokens_def)

lemma tokens_first:
  assumes "p \<noteq> []" and "hd p \<noteq> CHR '';''"
  shows "tokens p = takeWhile (\<lambda>c. c \<noteq> CHR '';'') p
           # tokens (drop 1 (dropWhile (\<lambda>c. c \<noteq> CHR '';'') p))"
proof -
  have ne: "takeWhile (\<lambda>c. c \<noteq> CHR '';'') p \<noteq> []"
    using assms by (cases p) auto
  let ?d = "dropWhile (\<lambda>c. c \<noteq> CHR '';'') p"
  let ?x = "case ?d of [] \<Rightarrow> [] | x # r \<Rightarrow> split_semi r"
  have "tokens p = filter (\<lambda>t. t \<noteq> []) (takeWhile (\<lambda>c. c \<noteq> CHR '';'') p # ?x)"
    unfolding tokens_def by (subst split_semi_takeWhile) (rule refl)
  also have "\<dots> = takeWhile (\<lambda>c. c \<noteq> CHR '';'') p # filter (\<lambda>t. t \<noteq> []) ?x"
    using ne by simp
  also have "filter (\<lambda>t. t \<noteq> []) ?x = tokens (drop 1 ?d)"
  proof (cases ?d)
    case Nil
    show ?thesis unfolding Nil by (simp add: tokens_Nil)
  next
    case (Cons x r)
    show ?thesis unfolding Cons by (simp add: tokens_def)
  qed
  finally show ?thesis .
qed

lemma strtok_semi_tokens:
  "strtok_semi p = None \<Longrightarrow> tokens p = []"
  "strtok_semi p = Some (t, r) \<Longrightarrow> tokens p = t # tokens r"
proof -
  let ?s1 = "dropWhile (\<lambda>c. c = CHR '';'') p"
  {
    assume "strtok_semi p = None"
    then have e: "?s1 = []" by (simp add: strtok_semi_def Let_def split: if_splits)
    have "tokens ?s1 = []" unfolding e by (rule tokens_Nil)
    then show "tokens p = []" unfolding tokens_skip .
  }
  {
    assume a: "strtok_semi p = Some (t, r)"
    then have ne: "?s1 \<noteq> []" and t: "t = takeWhile (\<lambda>c. c \<noteq> CHR '';'') ?s1"
      and r: "r = drop 1 (dropWhile (\<lambda>c. c \<noteq> CHR '';'') ?s1)"
      by (auto simp: strtok_semi_def Let_def split: if_splits)
    have "hd ?s1 \<noteq> CHR '';''" using hd_dropWhile [OF ne] by simp
    from tokens_first [OF ne this] have "tokens ?s1 = t # tokens r" unfolding t r .
    then show "tokens p = t # tokens r" unfolding tokens_skip .
  }
qed

lemma parse_tokens_fold: "parse_tokens p s = fold handle_pair (tokens p) s"
proof (induction p s rule: parse_tokens.induct)
  case (1 rest s)
  show ?case
  proof (cases "strtok_semi rest")
    case None
    then show ?thesis
      by (simp add: parse_tokens.simps [of rest] strtok_semi_tokens(1))
  next
    case (Some a)
    obtain t r where a: "a = (t, r)" by (cases a)
    have "parse_tokens r (handle_pair t s) = fold handle_pair (tokens r) (handle_pair t s)"
      using "1.IH" Some a by simp
    then show ?thesis
      using Some a by (simp add: parse_tokens.simps [of rest] strtok_semi_tokens(2))
  qed
qed

lemma indexOf_colon:
  "CHR '':'' \<notin> set key \<Longrightarrow> indexOf (CHR '':'') 0 (key @ CHR '':'' # v) = Some (length key)"
  "CHR '':'' \<notin> set token \<Longrightarrow> indexOf (CHR '':'') 0 token = None"
  by (simp_all add: indexOf_def takeWhile_append)

lemma split_pair_simps:
  "CHR '':'' \<notin> set key \<Longrightarrow> split_pair (key @ CHR '':'' # v) = Some (key, toInt v)"
  "CHR '':'' \<notin> set token \<Longrightarrow> split_pair token = None"
  by (simp_all add: split_pair_def indexOf_colon substring_def substring_from_def)

lemma handle_pair_split:
  "handle_pair token s =
     (case split_pair token of
        None \<Rightarrow> s
      | Some (key, v) \<Rightarrow>
          if key = ''rod2'' then s\<lparr>rod2_pos := v\<rparr>
          else if key = ''rod3'' then s\<lparr>rod3_pos := v\<rparr> else s)"
  by (simp add: handle_pair_def split_pair_def Let_def split: option.splits)

lemma digits_val_no_digit: "s = [] \<or> \<not> isdigit (hd s) \<Longrightarrow> digits_val a s = a"
  by (cases s) auto

lemma toInt_no_number: "no_number v \<Longrightarrow> toInt v = 0"
proof -
  assume a: "no_number v"
  define s1 where "s1 = dropWhile isspace v"
  define s2 where "s2 = (if s1 \<noteq> [] \<and> (hd s1 = CHR ''-'' \<or> hd s1 = CHR ''+'') then tl s1 else s1)"
  define neg where "neg = (s1 \<noteq> [] \<and> hd s1 = CHR ''-'')"
  have "s2 = [] \<or> \<not> isdigit (hd s2)"
    using a unfolding no_number_def Let_def s2_def s1_def .
  then have d: "digits_val 0 s2 = 0" by (rule digits_val_no_digit)
  have "toInt v = (if neg then max LONG_MIN (- int (digits_val 0 s2))
                   else min LONG_MAX (int (digits_val 0 s2)))"
    unfolding toInt_def atol_def Let_def s2_def s1_def neg_def by (rule refl)
  then show ?thesis unfolding d by (simp add: LONG_MAX_def LONG_MIN_def)
qed

text \<open>
  C6. When a payload waits (\<open>newData\<close>), the parser applies the loop body
  \<open>handle_pair\<close> to every token of the payload, from the first to the last, whatever the
  tokens before were, and then clears the flag; the flag is clear after the parser in
  any case. A token without a colon changes nothing; a token whose key is neither
  \<open>rod2\<close> nor \<open>rod3\<close> changes nothing; a token \<open>rod2:v\<close> stores \<open>toInt v\<close> in
  \<open>rod2_pos\<close> and a token \<open>rod3:v\<close> in \<open>rod3_pos\<close>; and \<open>toInt v\<close> is 0 when \<open>v\<close>
  holds no number.
\<close>

theorem parser_handles_every_token:
  "(newData s \<longrightarrow>
      parseDataFromESP_B s
        = (fold handle_pair (tokens (c_str (receivedChars s))) s)\<lparr>newData := False\<rparr>)
   \<and> \<not> newData (parseDataFromESP_B s)
   \<and> (CHR '':'' \<notin> set token \<longrightarrow> handle_pair token s = s)
   \<and> (CHR '':'' \<notin> set key \<and> key \<noteq> ''rod2'' \<and> key \<noteq> ''rod3'' \<longrightarrow>
        handle_pair (key @ CHR '':'' # v) s = s)
   \<and> handle_pair (''rod2:'' @ v) s = s\<lparr>rod2_pos := toInt v\<rparr>
   \<and> handle_pair (''rod3:'' @ v) s = s\<lparr>rod3_pos := toInt v\<rparr>
   \<and> (no_number v \<longrightarrow> toInt v = 0)"
proof (intro conjI impI)
  assume "newData s"
  then show "parseDataFromESP_B s
        = (fold handle_pair (tokens (c_str (receivedChars s))) s)\<lparr>newData := False\<rparr>"
    by (simp add: parseDataFromESP_B_def parse_tokens_fold)
next
  show "\<not> newData (parseDataFromESP_B s)"
    by (simp add: parseDataFromESP_B_def)
next
  assume "CHR '':'' \<notin> set token"
  then show "handle_pair token s = s"
    by (simp add: handle_pair_split split_pair_simps)
next
  assume "CHR '':'' \<notin> set key \<and> key \<noteq> ''rod2'' \<and> key \<noteq> ''rod3''"
  then show "handle_pair (key @ CHR '':'' # v) s = s"
    by (simp add: handle_pair_split split_pair_simps)
next
  have "split_pair (''rod2'' @ CHR '':'' # v) = Some (''rod2'', toInt v)"
    by (rule split_pair_simps) simp
  then show "handle_pair (''rod2:'' @ v) s = s\<lparr>rod2_pos := toInt v\<rparr>"
    by (simp add: handle_pair_split)
next
  have "split_pair (''rod3'' @ CHR '':'' # v) = Some (''rod3'', toInt v)"
    by (rule split_pair_simps) simp
  then show "handle_pair (''rod3:'' @ v) s = s\<lparr>rod3_pos := toInt v\<rparr>"
    by (simp add: handle_pair_split)
next
  assume "no_number v"
  then show "toInt v = 0" by (rule toInt_no_number)
qed

theorem parser_handles_every_token_witness:
  "parseDataFromESP_B garbled = garbled\<lparr>rod2_pos := 0, rod3_pos := 31, newData := False\<rparr>
   \<and> handle_pair ''garbage'' garbled = garbled
   \<and> handle_pair ''foo:7'' garbled = garbled
   \<and> toInt ''abc'' = 0"
proof -
  note T = parser_handles_every_token [of garbled "''garbage''" "''foo''" "''7''"]
  note U = parser_handles_every_token [of garbled "''garbage''" "''foo''" "''abc''"]
  have n: "newData garbled" by (simp add: garbled_def)
  have tk: "tokens (c_str (receivedChars garbled))
      = [''rod2:abc'', ''garbage'', ''foo:7'', ''rod3:31'']"
    by (simp add: garbled_def c_str_def NUL_def tokens_def)
  have nn: "no_number ''abc''" by (simp add: no_number_def isspace_def isdigit_def)
  have z: "toInt ''abc'' = 0" using U nn by blast
  have g: "handle_pair ''garbage'' garbled = garbled" using T by simp
  have f: "handle_pair ''foo:7'' garbled = garbled" using T by simp
  have r2: "\<And>s. handle_pair ''rod2:abc'' s = s\<lparr>rod2_pos := 0\<rparr>"
    using parser_handles_every_token [of _ "[]" "[]" "''abc''"] z by simp
  have r3: "\<And>s. handle_pair ''rod3:31'' s = s\<lparr>rod3_pos := toInt ''31''\<rparr>"
    using parser_handles_every_token [of _ "[]" "[]" "''31''"] by simp
  have g': "\<And>s. handle_pair ''garbage'' s = s"
    using parser_handles_every_token [of _ "''garbage''" "[]" "[]"] by simp
  have f': "\<And>s. handle_pair ''foo:7'' s = s"
    using parser_handles_every_token [of _ "[]" "''foo''" "''7''"] by simp
  have v: "toInt ''31'' = 31"
    by (simp add: toInt_def atol_def isspace_def isdigit_def LONG_MAX_def)
  have "parseDataFromESP_B garbled
      = (fold handle_pair [''rod2:abc'', ''garbage'', ''foo:7'', ''rod3:31''] garbled)\<lparr>newData := False\<rparr>"
    using T n unfolding tk by blast
  then have "parseDataFromESP_B garbled = garbled\<lparr>rod2_pos := 0, rod3_pos := 31, newData := False\<rparr>"
    by (simp add: r2 r3 g' f' v)
  with g f z show ?thesis by simp
qed

section \<open>Printing a number and reading it back\<close>

lemma printNumber_small: "n div 10 = 0 \<Longrightarrow> printNumber n acc = char_of (48 + n mod 10) # acc"
  by (simp add: printNumber.simps [of n acc])

lemma printNumber_big:
  "n div 10 \<noteq> 0 \<Longrightarrow> printNumber n acc = printNumber (n div 10) (char_of (48 + n mod 10) # acc)"
  by (simp add: printNumber.simps [of n acc] Let_def)

lemma printNumber_append: "printNumber n acc = printNumber n [] @ acc"
proof (induction n arbitrary: acc rule: less_induct)
  case (less n)
  show ?case
  proof (cases "n div 10 = 0")
    case True
    then show ?thesis by (simp add: printNumber_small)
  next
    case False
    then have lt: "n div 10 < n" by (simp add: div_less_dividend)
    have "printNumber n acc = printNumber (n div 10) (char_of (48 + n mod 10) # acc)"
      using False by (rule printNumber_big)
    also have "\<dots> = printNumber (n div 10) [] @ char_of (48 + n mod 10) # acc"
      by (rule less.IH [OF lt])
    finally have a: "printNumber n acc = printNumber (n div 10) [] @ char_of (48 + n mod 10) # acc" .
    have "printNumber n [] = printNumber (n div 10) [char_of (48 + n mod 10)]"
      using False by (rule printNumber_big)
    also have "\<dots> = printNumber (n div 10) [] @ [char_of (48 + n mod 10)]"
      by (rule less.IH [OF lt])
    finally have b: "printNumber n [] = printNumber (n div 10) [] @ [char_of (48 + n mod 10)]" .
    show ?thesis unfolding a b by simp
  qed
qed

lemma printNumber_snoc:
  "n div 10 \<noteq> 0 \<Longrightarrow> printNumber n [] = printNumber (n div 10) [] @ [char_of (48 + n mod 10)]"
proof -
  assume "n div 10 \<noteq> 0"
  then have "printNumber n [] = printNumber (n div 10) [char_of (48 + n mod 10)]"
    by (rule printNumber_big)
  also have "\<dots> = printNumber (n div 10) [] @ [char_of (48 + n mod 10)]"
    by (rule printNumber_append)
  finally show ?thesis .
qed

lemma isdigit_digit: "(d::nat) < 10 \<Longrightarrow> isdigit (char_of (48 + d))"
  by (simp add: isdigit_def)

lemma digit_value: "(d::nat) < 10 \<Longrightarrow> of_char (char_of (48 + d)) - 48 = d"
  by simp

lemma printNumber_digits: "\<forall>c \<in> set (printNumber n []). isdigit c"
proof (induction n rule: less_induct)
  case (less n)
  show ?case
  proof (cases "n div 10 = 0")
    case True
    then show ?thesis by (simp add: printNumber_small isdigit_digit)
  next
    case False
    then have lt: "n div 10 < n" by (simp add: div_less_dividend)
    show ?thesis
      using less.IH [OF lt] by (simp add: printNumber_snoc [OF False] isdigit_digit)
  qed
qed

lemma printNumber_nonempty: "printNumber n [] \<noteq> []"
  by (cases "n div 10 = 0") (simp_all add: printNumber_small printNumber_snoc)

lemma digits_val_snoc:
  "\<forall>c \<in> set xs. isdigit c \<Longrightarrow> isdigit d \<Longrightarrow>
   digits_val a (xs @ [d]) = digits_val a xs * 10 + (of_char d - 48)"
  by (induction xs arbitrary: a) simp_all

lemma digits_val_printNumber: "digits_val 0 (printNumber n []) = n"
proof (induction n rule: less_induct)
  case (less n)
  show ?case
  proof (cases "n div 10 = 0")
    case True
    then have "n < 10" by (simp add: div_eq_0_iff)
    then show ?thesis using True by (simp add: printNumber_small isdigit_digit)
  next
    case False
    then have lt: "n div 10 < n" by (simp add: div_less_dividend)
    have "digits_val 0 (printNumber n [])
        = digits_val 0 (printNumber (n div 10) []) * 10 + (of_char (char_of (48 + n mod 10)) - 48)"
      unfolding printNumber_snoc [OF False]
      by (rule digits_val_snoc) (simp_all add: printNumber_digits isdigit_digit)
    also have "\<dots> = (n div 10) * 10 + n mod 10"
      using less.IH [OF lt] by simp
    finally show ?thesis by simp
  qed
qed

lemma length_printNumber: "n < 10 ^ k \<Longrightarrow> 0 < k \<Longrightarrow> length (printNumber n []) \<le> k"
proof (induction k arbitrary: n)
  case 0
  then show ?case by simp
next
  case (Suc k)
  show ?case
  proof (cases "n div 10 = 0")
    case True
    then show ?thesis by (simp add: printNumber_small)
  next
    case False
    have "n div 10 < 10 ^ k" using Suc.prems(1) by (simp add: less_mult_imp_div_less mult.commute)
    moreover have "0 < k"
    proof (rule ccontr)
      assume "\<not> 0 < k"
      with Suc.prems(1) have "n < 10" by simp
      with False show False by simp
    qed
    ultimately have "length (printNumber (n div 10) []) \<le> k" by (rule Suc.IH)
    then show ?thesis by (simp add: printNumber_snoc [OF False])
  qed
qed

lemma digit_not_special:
  "isdigit c \<Longrightarrow> c \<noteq> CHR ''>'' \<and> c \<noteq> CHR '';'' \<and> c \<noteq> CHR '':'' \<and> c \<noteq> NUL
      \<and> c \<noteq> CHR ''-'' \<and> c \<noteq> CHR ''+'' \<and> \<not> isspace c"
  by (auto simp: isdigit_def isspace_def NUL_def)

lemma toInt_printNumber:
  assumes "int n \<le> LONG_MAX"
  shows "toInt (printNumber n []) = int n"
proof -
  let ?ds = "printNumber n []"
  obtain c cs where ds: "?ds = c # cs" using printNumber_nonempty [of n] by (cases ?ds) auto
  have "isdigit c" using printNumber_digits [of n] ds by simp
  note sp = digit_not_special [OF this]
  have s1: "dropWhile isspace ?ds = ?ds" using sp by (simp add: ds)
  have "toInt ?ds = min LONG_MAX (int (digits_val 0 ?ds))"
    unfolding toInt_def atol_def Let_def s1 using sp by (simp add: ds)
  then show ?thesis using assms by (simp add: digits_val_printNumber)
qed

text \<open>
  C5. The node holds a power level from 0 to \<open>LONG_MAX\<close> (every value of an \<^verbatim>\<open>int\<close> that
  is not negative), and \<open>d\<close> is a decoder outside any frame. Then the bytes
  \<open>sendDataToEspD\<close> writes are \<open><pwr:\<close>, the decimal digits of the level, \<open>>\<close> and a
  line feed; fed to the decoder they set the new-message flag and leave the line feed
  in the port; the payload is one token; and the split of that token at its colon gives
  the key \<open>pwr\<close> and, through \<open>toInt\<close>, the level that was sent.
\<close>

theorem status_frame_round_trip:
  assumes "0 \<le> currentPowerLevel s" and "currentPowerLevel s \<le> LONG_MAX"
    and "\<not> newData d" and "\<not> recvInProgress d" and "ndx d = 0"
    and "length (receivedChars d) = MAX_DATA_LENGTH"
  shows "(let wire = serial1_bytes (drop (length (trace s)) (trace (sendDataToEspD s)));
              d' = recvDataFromESP_B (d\<lparr>serial2_rx := wire\<rparr>);
              payload = c_str (receivedChars d')
          in wire = ''<pwr:'' @ print_long (currentPowerLevel s) @ ''>'' @ [CHR 0x0A]
           \<and> newData d'
           \<and> serial2_rx d' = [CHR 0x0A]
           \<and> payload = ''pwr:'' @ print_long (currentPowerLevel s)
           \<and> strtok_semi payload = Some (payload, [])
           \<and> tokens payload = [payload]
           \<and> split_pair payload = Some (''pwr'', currentPowerLevel s))"
proof -
  define L where "L = currentPowerLevel s"
  define ds where "ds = printNumber (nat L) []"
  define p where "p = ''pwr:'' @ ds"
  have pl: "print_long L = ds" using assms(1) by (simp add: print_long_def ds_def L_def)
  have dig: "\<forall>c \<in> set ds. isdigit c" unfolding ds_def by (rule printNumber_digits)
  have sp: "\<forall>c \<in> set ds. c \<noteq> CHR ''>'' \<and> c \<noteq> CHR '';'' \<and> c \<noteq> CHR '':'' \<and> c \<noteq> NUL"
    using dig digit_not_special by blast
  have "nat L < 10 ^ 10" using assms(2) by (simp add: L_def LONG_MAX_def)
  then have "length ds \<le> 10" unfolding ds_def by (rule length_printNumber) simp
  then have short: "take 49 p = p" by (simp add: p_def)
  have nonul: "NUL \<notin> set p" using sp by (auto simp: p_def NUL_def)
  have noend: "CHR ''>'' \<notin> set p" using sp by (auto simp: p_def)
  have nosemi: "CHR '';'' \<notin> set p" using sp by (auto simp: p_def)
  have wire: "serial1_bytes (drop (length (trace s)) (trace (sendDataToEspD s)))
      = CHR ''<'' # p @ CHR ''>'' # [CHR 0x0A]"
    by (simp add: sendDataToEspD_eq status_frame_def serial1_bytes_def pl p_def L_def [symmetric])
  have len: "length (receivedChars d) = 50" using assms(6) by (simp add: MAX_DATA_LENGTH_def)
  have ne: "CHR ''<'' \<notin> set []" by simp
  note fr = recv_loop_frame [OF assms(3,4,5) len ne noend, of "[CHR 0x0A]",
      unfolded append_Nil short c_str_no_NUL [OF nonul]]
  define d' where "d' = recvDataFromESP_B (d\<lparr>serial2_rx := CHR ''<'' # p @ CHR ''>'' # [CHR 0x0A]\<rparr>)"
  have d': "d' = recv_loop d (CHR ''<'' # p @ CHR ''>'' # [CHR 0x0A])"
    unfolding d'_def by (rule recvDataFromESP_B_loop)
  have r1: "newData d'" "serial2_rx d' = [CHR 0x0A]" "c_str (receivedChars d') = p"
    unfolding d' using fr by simp_all
  have tw: "takeWhile (\<lambda>c. c \<noteq> CHR '';'') p = p" "dropWhile (\<lambda>c. c \<noteq> CHR '';'') p = []"
    using nosemi by auto
  have dw: "dropWhile (\<lambda>c. c = CHR '';'') p = p" by (simp add: p_def)
  have pne: "p \<noteq> []" by (simp add: p_def)
  have st: "strtok_semi p = Some (p, [])"
    unfolding strtok_semi_def Let_def dw tw using pne by simp
  have tk: "tokens p = [p]" using strtok_semi_tokens(2) [OF st] by (simp add: tokens_Nil)
  have "split_pair (''pwr'' @ CHR '':'' # ds) = Some (''pwr'', toInt ds)"
    by (rule split_pair_simps) simp
  moreover have "toInt ds = L"
    using toInt_printNumber [of "nat L"] assms(1,2) by (simp add: ds_def L_def)
  ultimately have kv: "split_pair p = Some (''pwr'', L)" by (simp add: p_def)
  have w2: "''<pwr:'' @ print_long L @ ''>'' @ [CHR 0x0A] = CHR ''<'' # p @ CHR ''>'' # [CHR 0x0A]"
    by (simp add: pl p_def)
  have pp: "''pwr:'' @ print_long L = p" by (simp add: pl p_def)
  show ?thesis
    unfolding Let_def L_def [symmetric] wire w2 pp d'_def [symmetric] r1(3)
    using r1(1,2) st tk kv by simp
qed

theorem status_frame_round_trip_witness:
  "serial1_bytes (drop (length (trace level2)) (trace (sendDataToEspD level2)))
     = ''<pwr:2>'' @ [CHR 0x0A]
   \<and> newData (recvDataFromESP_B (init_esp_c\<lparr>serial2_rx := ''<pwr:2>'' @ [CHR 0x0A]\<rparr>))
   \<and> c_str (receivedChars (recvDataFromESP_B (init_esp_c\<lparr>serial2_rx := ''<pwr:2>'' @ [CHR 0x0A]\<rparr>)))
       = ''pwr:2''
   \<and> split_pair (c_str (receivedChars
        (recvDataFromESP_B (init_esp_c\<lparr>serial2_rx := ''<pwr:2>'' @ [CHR 0x0A]\<rparr>))))
       = Some (''pwr'', 2)"
proof -
  have h: "0 \<le> currentPowerLevel level2" "currentPowerLevel level2 \<le> LONG_MAX"
    "\<not> newData init_esp_c" "\<not> recvInProgress init_esp_c" "ndx init_esp_c = 0"
    "length (receivedChars init_esp_c) = MAX_DATA_LENGTH"
    by (simp_all add: level2_def init_esp_c_def LONG_MAX_def MAX_DATA_LENGTH_def)
  have l: "currentPowerLevel level2 = 2" by (simp add: level2_def init_esp_c_def)
  have pr: "print_long 2 = ''2''" by code_simp
  note T = status_frame_round_trip [OF h, unfolded Let_def l pr]
  have w: "serial1_bytes (drop (length (trace level2)) (trace (sendDataToEspD level2)))
     = ''<pwr:2>'' @ [CHR 0x0A]"
    using T by simp
  note U = T [unfolded w]
  from U have a: "newData (recvDataFromESP_B (init_esp_c\<lparr>serial2_rx := ''<pwr:2>'' @ [CHR 0x0A]\<rparr>))"
    by (elim conjE)
  from U have b: "c_str (receivedChars (recvDataFromESP_B (init_esp_c\<lparr>serial2_rx := ''<pwr:2>'' @ [CHR 0x0A]\<rparr>)))
       = ''pwr:'' @ ''2''"
    by (elim conjE)
  from U have c: "split_pair (c_str (receivedChars
        (recvDataFromESP_B (init_esp_c\<lparr>serial2_rx := ''<pwr:2>'' @ [CHR 0x0A]\<rparr>))))
       = Some (''pwr'', 2)"
    by (elim conjE)
  from w a b c show ?thesis by simp
qed

section \<open>The visualizer parsers and the pairs of a payload\<close>

lemma split_semi_nonempty: "split_semi cs \<noteq> []"
  by (subst split_semi_takeWhile) simp

lemma split_semi_no_semi: "CHR '';'' \<notin> set cs \<Longrightarrow> split_semi cs = [cs]"
proof -
  assume "CHR '';'' \<notin> set cs"
  then have e: "dropWhile (\<lambda>c. c \<noteq> CHR '';'') cs = []" "takeWhile (\<lambda>c. c \<noteq> CHR '';'') cs = cs"
    by auto
  show ?thesis
    by (subst split_semi_takeWhile) (simp only: e list.case)
qed

lemma split_semi_semi:
  assumes "CHR '';'' \<in> set cs"
  shows "split_semi cs = takeWhile (\<lambda>c. c \<noteq> CHR '';'') cs
           # split_semi (drop 1 (dropWhile (\<lambda>c. c \<noteq> CHR '';'') cs))"
proof -
  obtain x r where d: "dropWhile (\<lambda>c. c \<noteq> CHR '';'') cs = x # r"
    using assms by (cases "dropWhile (\<lambda>c. c \<noteq> CHR '';'') cs") auto
  show ?thesis
    by (subst split_semi_takeWhile) (simp add: d)
qed

lemma terminated_simps:
  "CHR '';'' \<notin> set cs \<Longrightarrow> terminated cs = []"
  "CHR '';'' \<in> set cs \<Longrightarrow> terminated cs = takeWhile (\<lambda>c. c \<noteq> CHR '';'') cs
           # terminated (drop 1 (dropWhile (\<lambda>c. c \<noteq> CHR '';'') cs))"
  by (simp_all add: terminated_def split_semi_no_semi split_semi_semi split_semi_nonempty)

lemma trailing_simps:
  "CHR '';'' \<notin> set cs \<Longrightarrow> trailing cs = cs"
  "CHR '';'' \<in> set cs \<Longrightarrow> trailing cs = trailing (drop 1 (dropWhile (\<lambda>c. c \<noteq> CHR '';'') cs))"
  by (simp_all add: trailing_def split_semi_no_semi split_semi_semi split_semi_nonempty)

text \<open>What \<^verbatim>\<open>indexOf(';', lastIndex)\<close> and the \<^verbatim>\<open>substring\<close> of the loops compute, in
  terms of the text from \<open>lastIndex\<close> on.\<close>

lemma indexOf_semi_None:
  "indexOf (CHR '';'') i data = None \<longleftrightarrow> CHR '';'' \<notin> set (drop i data)"
  by (simp add: indexOf_def)

lemma indexOf_semi_Some:
  assumes "indexOf (CHR '';'') i data = Some sep"
  shows "CHR '';'' \<in> set (drop i data)"
    and "substring i sep data = takeWhile (\<lambda>c. c \<noteq> CHR '';'') (drop i data)"
    and "drop (sep + 1) data = drop 1 (dropWhile (\<lambda>c. c \<noteq> CHR '';'') (drop i data))"
proof -
  let ?rest = "drop i data"
  let ?tw = "takeWhile (\<lambda>c. c \<noteq> CHR '';'') ?rest"
  from assms show mem: "CHR '';'' \<in> set ?rest"
    by (simp add: indexOf_def split: if_splits)
  from assms have sep: "sep = i + length ?tw"
    by (simp add: indexOf_def split: if_splits)
  have "substring i sep data = take (length ?tw) ?rest"
    by (simp add: substring_def sep Let_def)
  also have "\<dots> = ?tw" by (rule takeWhile_eq_take [symmetric])
  finally show "substring i sep data = ?tw" .
  have "drop (sep + 1) data = drop 1 (drop (length ?tw) ?rest)"
    by (simp add: sep add.commute)
  also have "drop (length ?tw) ?rest = dropWhile (\<lambda>c. c \<noteq> CHR '';'') ?rest"
    by (rule dropWhile_eq_drop [symmetric])
  finally show "drop (sep + 1) data = drop 1 (dropWhile (\<lambda>c. c \<noteq> CHR '';'') ?rest)" .
qed

lemma scan_F_pairs:
  "scan_F data i st =
     (case find (has_key ''pump2'') (terminated (drop i data)) of
        Some pair \<Rightarrow> pair_value pair | None \<Rightarrow> st)"
proof (induction "length data - i" arbitrary: i rule: less_induct)
  case less
  show ?case
  proof (cases "indexOf (CHR '';'') i data")
    case None
    then have "CHR '';'' \<notin> set (drop i data)" by (simp add: indexOf_semi_None)
    then show ?thesis
      using None by (simp add: scan_F.simps [of data i] terminated_simps)
  next
    case (Some sep)
    note ix = indexOf_semi_Some [OF Some]
    let ?pair = "takeWhile (\<lambda>c. c \<noteq> CHR '';'') (drop i data)"
    have tm: "terminated (drop i data) = ?pair # terminated (drop (sep + 1) data)"
      unfolding ix(3) by (rule terminated_simps(2) [OF ix(1)])
    have un: "scan_F data i st =
        (case split_pair ?pair of
           None \<Rightarrow> scan_F data (sep + 1) st
         | Some (key, v) \<Rightarrow> if key = ''pump2'' then v else scan_F data (sep + 1) st)"
      by (simp add: scan_F.simps [of data i] Some ix(2))
    have "length data - (sep + 1) < length data - i"
      using indexOf_bounds [OF Some] by auto
    then have ih: "scan_F data (sep + 1) st =
        (case find (has_key ''pump2'') (terminated (drop (sep + 1) data)) of
           Some pair \<Rightarrow> pair_value pair | None \<Rightarrow> st)"
      by (rule less.hyps)
    show ?thesis
    proof (cases "has_key ''pump2'' ?pair")
      case True
      then have "scan_F data i st = pair_value ?pair"
        unfolding un by (auto simp: has_key_def pair_value_def split: option.splits)
      then show ?thesis using True by (simp add: tm)
    next
      case False
      then have "scan_F data i st = scan_F data (sep + 1) st"
        unfolding un by (auto simp: has_key_def split: option.splits)
      then show ?thesis using False ih by (simp add: tm)
    qed
  qed
qed

lemma scan_G_pairs:
  "scan_G data i st =
     (case find (has_key ''pump3'') (terminated (drop i data)) of
        Some pair \<Rightarrow> pair_value pair
      | None \<Rightarrow> if has_key ''pump3'' (trailing (drop i data))
                then pair_value (trailing (drop i data)) else st)"
proof (induction "length data - i" arbitrary: i rule: less_induct)
  case less
  show ?case
  proof (cases "indexOf (CHR '';'') i data")
    case None
    then have n: "CHR '';'' \<notin> set (drop i data)" by (simp add: indexOf_semi_None)
    have "scan_G data i st =
        (case split_pair (drop i data) of
           None \<Rightarrow> st | Some (key, v) \<Rightarrow> if key = ''pump3'' then v else st)"
      by (simp add: scan_G.simps [of data i] None substring_from_def)
    then show ?thesis
      using n by (auto simp: terminated_simps trailing_simps has_key_def pair_value_def
          split: option.splits)
  next
    case (Some sep)
    note ix = indexOf_semi_Some [OF Some]
    let ?pair = "takeWhile (\<lambda>c. c \<noteq> CHR '';'') (drop i data)"
    have tm: "terminated (drop i data) = ?pair # terminated (drop (sep + 1) data)"
      unfolding ix(3) by (rule terminated_simps(2) [OF ix(1)])
    have tr: "trailing (drop i data) = trailing (drop (sep + 1) data)"
      unfolding ix(3) by (rule trailing_simps(2) [OF ix(1)])
    have un: "scan_G data i st =
        (case split_pair ?pair of
           None \<Rightarrow> scan_G data (sep + 1) st
         | Some (key, v) \<Rightarrow> if key = ''pump3'' then v else scan_G data (sep + 1) st)"
      by (simp add: scan_G.simps [of data i] Some ix(2))
    have "length data - (sep + 1) < length data - i"
      using indexOf_bounds [OF Some] by auto
    then have ih: "scan_G data (sep + 1) st =
        (case find (has_key ''pump3'') (terminated (drop (sep + 1) data)) of
           Some pair \<Rightarrow> pair_value pair
         | None \<Rightarrow> if has_key ''pump3'' (trailing (drop (sep + 1) data))
                   then pair_value (trailing (drop (sep + 1) data)) else st)"
      by (rule less.hyps)
    show ?thesis
    proof (cases "has_key ''pump3'' ?pair")
      case True
      then have "scan_G data i st = pair_value ?pair"
        unfolding un by (auto simp: has_key_def pair_value_def split: option.splits)
      then show ?thesis using True by (simp add: tm)
    next
      case False
      then have e: "scan_G data i st = scan_G data (sep + 1) st"
        unfolding un by (auto simp: has_key_def split: option.splits)
      have f: "find (has_key ''pump3'') (terminated (drop i data))
          = find (has_key ''pump3'') (terminated (drop (sep + 1) data))"
        using False by (simp add: tm)
      show ?thesis unfolding e ih f tr by (rule refl)
    qed
  qed
qed

lemma find_snoc:
  "find P (xs @ [x]) = (case find P xs of Some y \<Rightarrow> Some y | None \<Rightarrow> if P x then Some x else None)"
  by (induction xs) simp_all

lemma scan_E_pairs:
  "scan_E data i st =
     (case find (has_key ''pump1'') (rev (terminated (drop i data))) of
        Some pair \<Rightarrow> pair_value pair | None \<Rightarrow> st)"
proof (induction "length data - i" arbitrary: i st rule: less_induct)
  case less
  show ?case
  proof (cases "indexOf (CHR '';'') i data")
    case None
    then have "CHR '';'' \<notin> set (drop i data)" by (simp add: indexOf_semi_None)
    then show ?thesis
      using None by (simp add: scan_E.simps [of data i] terminated_simps)
  next
    case (Some sep)
    note ix = indexOf_semi_Some [OF Some]
    let ?pair = "takeWhile (\<lambda>c. c \<noteq> CHR '';'') (drop i data)"
    let ?st = "if has_key ''pump1'' ?pair then pair_value ?pair else st"
    have tm: "terminated (drop i data) = ?pair # terminated (drop (sep + 1) data)"
      unfolding ix(3) by (rule terminated_simps(2) [OF ix(1)])
    have "scan_E data i st = scan_E data (sep + 1)
        (case split_pair ?pair of
           None \<Rightarrow> st | Some (key, v) \<Rightarrow> if key = ''pump1'' then v else st)"
      by (simp add: scan_E.simps [of data i] Some ix(2))
    also have "(case split_pair ?pair of
           None \<Rightarrow> st | Some (key, v) \<Rightarrow> if key = ''pump1'' then v else st) = ?st"
      by (auto simp: has_key_def pair_value_def split: option.splits)
    finally have un: "scan_E data i st = scan_E data (sep + 1) ?st" .
    have "length data - (sep + 1) < length data - i"
      using indexOf_bounds [OF Some] by auto
    then have ih: "scan_E data (sep + 1) ?st =
        (case find (has_key ''pump1'') (rev (terminated (drop (sep + 1) data))) of
           Some pair \<Rightarrow> pair_value pair | None \<Rightarrow> ?st)"
      by (rule less.hyps)
    show ?thesis
      unfolding un ih tm by (simp add: find_snoc split: option.splits)
  qed
qed

lemma strip_markers_frame: "strip_markers (CHR ''<'' # payload @ ''>'') = payload"
  by (simp add: strip_markers_def)

text \<open>
  C8, as stated, fails: ESP-G does not scan all the pairs that end in a semicolon. On
  the line \<open><pump3:1;pump3:2;>\<close> it returns at the first pair and stores 1; a parser
  that scans them all stores 2, as ESP-E does for its own key on
  \<open><pump1:1;pump1:2;>\<close>.
\<close>

theorem esp_g_returns_at_first_match:
  "parseData_G ''<pump3:1;pump3:2;>'' 0 = 1
   \<and> claimed_parse_G ''<pump3:1;pump3:2;>'' 0 = 2
   \<and> parseData_G ''<pump3:1;pump3:2;>'' 0 \<noteq> claimed_parse_G ''<pump3:1;pump3:2;>'' 0
   \<and> parseData_E ''<pump1:1;pump1:2;>'' 0 = 2"
  by code_simp

text \<open>
  C8, amended. For every line and every status held before: ESP-E stores the number of
  the last pair with the key \<open>pump1\<close> among the pairs that end in a semicolon, and
  never looks at the text after the last semicolon; ESP-F stores the number of the first
  such pair with the key \<open>pump2\<close> and returns; ESP-G stores the number of the first such
  pair with the key \<open>pump3\<close> and returns, and only when there is none looks at the text
  after the last semicolon. With no pair of its key the status stays. So for a frame
  whose payload has no semicolon, ESP-E and ESP-F keep their status and ESP-G stores the
  number when the key is \<open>pump3\<close>: \<open><pump3:2>\<close> makes ESP-G store 2, while
  \<open><pump1:2>\<close> and \<open><pump2:2>\<close> leave ESP-E and ESP-F as they were.
\<close>

theorem visualizer_parsers_diverge:
  "parseData_E data st =
     (case find (has_key ''pump1'') (rev (terminated (strip_markers data))) of
        Some pair \<Rightarrow> pair_value pair | None \<Rightarrow> st)
   \<and> parseData_F data st =
     (case find (has_key ''pump2'') (terminated (strip_markers data)) of
        Some pair \<Rightarrow> pair_value pair | None \<Rightarrow> st)
   \<and> parseData_G data st =
     (case find (has_key ''pump3'') (terminated (strip_markers data)) of
        Some pair \<Rightarrow> pair_value pair
      | None \<Rightarrow> if has_key ''pump3'' (trailing (strip_markers data))
                then pair_value (trailing (strip_markers data)) else st)
   \<and> (CHR '';'' \<notin> set payload \<longrightarrow>
        parseData_E (CHR ''<'' # payload @ ''>'') st = st
      \<and> parseData_F (CHR ''<'' # payload @ ''>'') st = st
      \<and> parseData_G (CHR ''<'' # payload @ ''>'') st
          = (if has_key ''pump3'' payload then pair_value payload else st))
   \<and> parseData_E ''<pump1:2>'' st = st
   \<and> parseData_F ''<pump2:2>'' st = st
   \<and> parseData_G ''<pump3:2>'' st = 2"
proof -
  have E: "\<And>data. parseData_E data st =
     (case find (has_key ''pump1'') (rev (terminated (strip_markers data))) of
        Some pair \<Rightarrow> pair_value pair | None \<Rightarrow> st)"
    unfolding parseData_E_def by (rule scan_E_pairs [of _ 0 st, unfolded drop_0])
  have F: "\<And>data. parseData_F data st =
     (case find (has_key ''pump2'') (terminated (strip_markers data)) of
        Some pair \<Rightarrow> pair_value pair | None \<Rightarrow> st)"
    unfolding parseData_F_def by (rule scan_F_pairs [of _ 0 st, unfolded drop_0])
  have G: "\<And>data. parseData_G data st =
     (case find (has_key ''pump3'') (terminated (strip_markers data)) of
        Some pair \<Rightarrow> pair_value pair
      | None \<Rightarrow> if has_key ''pump3'' (trailing (strip_markers data))
                then pair_value (trailing (strip_markers data)) else st)"
    unfolding parseData_G_def by (rule scan_G_pairs [of _ 0 st, unfolded drop_0])
  have one: "\<And>payload. CHR '';'' \<notin> set payload \<Longrightarrow>
        parseData_E (CHR ''<'' # payload @ ''>'') st = st
      \<and> parseData_F (CHR ''<'' # payload @ ''>'') st = st
      \<and> parseData_G (CHR ''<'' # payload @ ''>'') st
          = (if has_key ''pump3'' payload then pair_value payload else st)"
    unfolding E F G strip_markers_frame by (simp add: terminated_simps trailing_simps)
  have k: "has_key ''pump3'' ''pump3:2''" "pair_value ''pump3:2'' = 2" by code_simp+
  have "parseData_E ''<pump1:2>'' st = st" "parseData_F ''<pump2:2>'' st = st"
    using one [of "''pump1:2''"] one [of "''pump2:2''"] by simp_all
  moreover have "parseData_G ''<pump3:2>'' st = 2"
    using one [of "''pump3:2''"] k by simp
  ultimately show ?thesis using E F G one by blast
qed

theorem visualizer_parsers_diverge_witness:
  "parseData_E ''<pump1:3>'' 0 = 0
   \<and> parseData_F ''<pump2:3>'' 0 = 0
   \<and> parseData_G ''<pump3:3>'' 0 = 3"
proof -
  note T1 = visualizer_parsers_diverge [of "''<pump1:3>''" 0 "''pump1:3''"]
  note T2 = visualizer_parsers_diverge [of "''<pump2:3>''" 0 "''pump2:3''"]
  note T3 = visualizer_parsers_diverge [of "''<pump3:3>''" 0 "''pump3:3''"]
  have k: "has_key ''pump3'' ''pump3:3''" "pair_value ''pump3:3'' = 3" by code_simp+
  have "parseData_E ''<pump1:3>'' 0 = 0" using T1 by simp
  moreover have "parseData_F ''<pump2:3>'' 0 = 0" using T2 by simp
  moreover have "parseData_G ''<pump3:3>'' 0 = 3" using T3 k by simp
  ultimately show ?thesis by simp
qed

section \<open>ESP-E: the master position\<close>

lemma listen_E_fields:
  "masterPosition (listen_E i s) = masterPosition s"
  "lastAnimationTime (listen_E i s) = lastAnimationTime s"
  "animationSpeedDelay (listen_E i s) = animationSpeedDelay s"
  "led_writes (listen_E i s) = led_writes s"
  by (simp_all add: listen_E_def Let_def split: option.splits)

lemma animate_E_status: "pumpPrimaryStatus (animate_E i s) = pumpPrimaryStatus s"
  by (simp add: animate_E_def Let_def write_leds_def)

lemma loop_E_status: "pumpPrimaryStatus (loop_E i s) = pumpPrimaryStatus (listen_E i s)"
  by (simp add: loop_E_def animate_E_status)

lemma animate_E_off:
  assumes "pumpPrimaryStatus s = 0"
  shows "masterPosition (animate_E i s) = - 1"
    and "led_writes (animate_E i s)
         = led_writes s @ (if masterPosition s \<noteq> - 1
                           then map (\<lambda>c. (int c, 0)) [0 ..< 16] else [])"
  using assms by (simp_all add: animate_E_def write_leds_def NUM_LEDS_def)

lemma animate_E_on:
  assumes "pumpPrimaryStatus s \<noteq> 0" and "pos_ok s"
  shows "masterPosition (animate_E i s) =
           (let base = (if masterPosition s = - 1 then 0 else masterPosition s)
            in if word_of_int (animationSpeedDelay (animate_E i s)) \<le> e_check i - lastAnimationTime s
               then (if base + 1 = NUM_LEDS then 0 else base + 1)
               else base)"
  using assms
  by (auto simp: animate_E_def Let_def write_leds_def NUM_LEDS_def pos_ok_def)

lemma pos_ok_animate_E: "pos_ok s \<Longrightarrow> pos_ok (animate_E i s)"
  by (auto simp: animate_E_def Let_def write_leds_def NUM_LEDS_def pos_ok_def)

lemma pos_ok_loop_E: "pos_ok s \<Longrightarrow> pos_ok (loop_E i s)"
  unfolding loop_E_def by (rule pos_ok_animate_E) (simp add: pos_ok_def listen_E_fields)

lemma pos_ok_run_E: "pos_ok s \<Longrightarrow> \<forall>s' \<in> set (run_E s ins). pos_ok s'"
proof (induction ins arbitrary: s)
  case Nil
  show ?case by simp
next
  case (Cons i "is")
  have "pos_ok (loop_E i s)" using Cons.prems by (rule pos_ok_loop_E)
  moreover from this have "\<forall>s' \<in> set (run_E (loop_E i s) is). pos_ok s'" by (rule Cons.IH)
  ultimately show ?case by simp
qed

lemma animate_E_clock:
  assumes "pumpPrimaryStatus s \<noteq> 0"
  shows "lastAnimationTime (animate_E i s) =
           (if word_of_int (animationSpeedDelay (animate_E i s)) \<le> e_check i - lastAnimationTime s
            then e_stamp i else lastAnimationTime s)"
  using assms by (simp add: animate_E_def Let_def write_leds_def)

lemma animate_E_clock_off:
  assumes "pumpPrimaryStatus s = 0"
  shows "lastAnimationTime (animate_E i s) = lastAnimationTime s"
  using assms by (simp add: animate_E_def Let_def write_leds_def)

lemma animate_E_delay:
  "animationSpeedDelay (animate_E i s) =
     (if pumpPrimaryStatus s = 1 then 500
      else if pumpPrimaryStatus s = 2 then 200
      else if pumpPrimaryStatus s = 3 then 600
      else animationSpeedDelay s)"
  by (simp add: animate_E_def Let_def write_leds_def)

lemma animate_E_frame:
  assumes "pumpPrimaryStatus s \<noteq> 0"
  shows "led_writes (animate_E i s) =
           led_writes s @
           (if word_of_int (animationSpeedDelay (animate_E i s)) \<le> e_check i - lastAnimationTime s
            then map (\<lambda>c. (int c, nextLedState (if masterPosition s = - 1 then 0 else masterPosition s) ! c))
                   [0 ..< 16]
            else [])"
  using assms by (simp add: animate_E_def Let_def write_leds_def NUM_LEDS_def)

text \<open>
  C9. In every run of ESP-E from its state at boot, the master position after each pass
  is the sentinel \<open>-1\<close> or lies in 0 to \<open>NUM_LEDS - 1\<close>, that is 0 to 15. A pass whose
  pump status is not 0 sets the delay of that status (500, 200 or 600 ms) and first
  takes the sentinel to 0. Then, when the delay has elapsed since the time stamp of the
  last step, it moves the position forward by one, to 0 when the step would reach
  \<open>NUM_LEDS\<close>, writes one frame to the sixteen channels and renews the time stamp, also
  at the wrap; otherwise it leaves the position and the time stamp and writes nothing.
  So the pass after a step moves the position again only when the delay has elapsed
  since that step: one step for each elapsed delay. A pass whose pump status is 0 ends
  at the sentinel and keeps the time stamp; it writes 0 to the sixteen channels when it
  did not start at the sentinel and writes nothing when it did, so the pass after it,
  if its status is 0 again, writes nothing.
\<close>

theorem master_position_cycles:
  "(\<forall>s' \<in> set (run_E init_esp_e ins).
       masterPosition s' = - 1 \<or> (0 \<le> masterPosition s' \<and> masterPosition s' < NUM_LEDS))
   \<and> NUM_LEDS = 16
   \<and> ((masterPosition s = - 1 \<or> (0 \<le> masterPosition s \<and> masterPosition s < NUM_LEDS))
        \<and> pumpPrimaryStatus (loop_E i s) \<noteq> 0 \<longrightarrow>
        masterPosition (loop_E i s) =
          (let base = (if masterPosition s = - 1 then 0 else masterPosition s)
           in if word_of_int (animationSpeedDelay (loop_E i s)) \<le> e_check i - lastAnimationTime s
              then (if base + 1 = NUM_LEDS then 0 else base + 1)
              else base))
   \<and> (pumpPrimaryStatus (loop_E i s) = 0 \<longrightarrow>
        masterPosition (loop_E i s) = - 1
        \<and> led_writes (loop_E i s)
            = led_writes s @ (if masterPosition s \<noteq> - 1
                              then map (\<lambda>c. (int c, 0)) [0 ..< 16] else []))
   \<and> (pumpPrimaryStatus (loop_E i s) = 0 \<and> pumpPrimaryStatus (loop_E i' (loop_E i s)) = 0 \<longrightarrow>
        led_writes (loop_E i' (loop_E i s)) = led_writes (loop_E i s))
   \<and> (pumpPrimaryStatus (loop_E i s) \<noteq> 0 \<longrightarrow>
        lastAnimationTime (loop_E i s) =
          (if word_of_int (animationSpeedDelay (loop_E i s)) \<le> e_check i - lastAnimationTime s
           then e_stamp i else lastAnimationTime s)
        \<and> led_writes (loop_E i s) =
            led_writes s @
            (if word_of_int (animationSpeedDelay (loop_E i s)) \<le> e_check i - lastAnimationTime s
             then map (\<lambda>c. (int c, nextLedState (if masterPosition s = - 1 then 0
                                                   else masterPosition s) ! c)) [0 ..< 16]
             else []))
   \<and> (pumpPrimaryStatus (loop_E i s) = 0 \<longrightarrow>
        lastAnimationTime (loop_E i s) = lastAnimationTime s)
   \<and> animationSpeedDelay (loop_E i s) =
        (if pumpPrimaryStatus (loop_E i s) = 1 then 500
         else if pumpPrimaryStatus (loop_E i s) = 2 then 200
         else if pumpPrimaryStatus (loop_E i s) = 3 then 600
         else animationSpeedDelay s)
   \<and> ((masterPosition s = - 1 \<or> (0 \<le> masterPosition s \<and> masterPosition s < NUM_LEDS))
        \<and> pumpPrimaryStatus (loop_E i s) \<noteq> 0
        \<and> pumpPrimaryStatus (loop_E i' (loop_E i s)) \<noteq> 0
        \<and> word_of_int (animationSpeedDelay (loop_E i s)) \<le> e_check i - lastAnimationTime s \<longrightarrow>
        masterPosition (loop_E i' (loop_E i s)) =
          (if word_of_int (animationSpeedDelay (loop_E i' (loop_E i s))) \<le> e_check i' - e_stamp i
           then (if masterPosition (loop_E i s) + 1 = NUM_LEDS then 0
                 else masterPosition (loop_E i s) + 1)
           else masterPosition (loop_E i s))
        \<and> lastAnimationTime (loop_E i' (loop_E i s)) =
          (if word_of_int (animationSpeedDelay (loop_E i' (loop_E i s))) \<le> e_check i' - e_stamp i
           then e_stamp i' else e_stamp i))"
proof (intro conjI impI)
  have "pos_ok init_esp_e" by (simp add: pos_ok_def init_esp_e_def NUM_LEDS_def)
  then have "\<forall>s' \<in> set (run_E init_esp_e ins). pos_ok s'" by (rule pos_ok_run_E)
  then show "\<forall>s' \<in> set (run_E init_esp_e ins).
       masterPosition s' = - 1 \<or> (0 \<le> masterPosition s' \<and> masterPosition s' < NUM_LEDS)"
    by (simp add: pos_ok_def)
next
  show "NUM_LEDS = 16" by (simp add: NUM_LEDS_def)
next
  assume a: "(masterPosition s = - 1 \<or> (0 \<le> masterPosition s \<and> masterPosition s < NUM_LEDS))
        \<and> pumpPrimaryStatus (loop_E i s) \<noteq> 0"
  then have "pos_ok (listen_E i s)" "pumpPrimaryStatus (listen_E i s) \<noteq> 0"
    by (simp_all add: pos_ok_def listen_E_fields loop_E_status)
  from animate_E_on [OF this(2,1), of i]
  show "masterPosition (loop_E i s) =
          (let base = (if masterPosition s = - 1 then 0 else masterPosition s)
           in if word_of_int (animationSpeedDelay (loop_E i s)) \<le> e_check i - lastAnimationTime s
              then (if base + 1 = NUM_LEDS then 0 else base + 1)
              else base)"
    by (simp add: loop_E_def listen_E_fields)
next
  assume "pumpPrimaryStatus (loop_E i s) = 0"
  then have z: "pumpPrimaryStatus (listen_E i s) = 0" by (simp add: loop_E_status)
  from animate_E_off [OF z, of i]
  show "masterPosition (loop_E i s) = - 1"
    and "led_writes (loop_E i s)
            = led_writes s @ (if masterPosition s \<noteq> - 1
                              then map (\<lambda>c. (int c, 0)) [0 ..< 16] else [])"
    by (simp_all add: loop_E_def listen_E_fields)
  from animate_E_clock_off [OF z, of i]
  show "lastAnimationTime (loop_E i s) = lastAnimationTime s"
    by (simp add: loop_E_def listen_E_fields)
next
  assume a: "pumpPrimaryStatus (loop_E i s) = 0 \<and> pumpPrimaryStatus (loop_E i' (loop_E i s)) = 0"
  then have z: "pumpPrimaryStatus (listen_E i s) = 0"
    and z': "pumpPrimaryStatus (listen_E i' (loop_E i s)) = 0"
    by (simp_all add: loop_E_status)
  have m: "masterPosition (loop_E i s) = - 1"
    using animate_E_off(1) [OF z, of i] by (simp add: loop_E_def)
  show "led_writes (loop_E i' (loop_E i s)) = led_writes (loop_E i s)"
    using animate_E_off(2) [OF z', of i'] m
    by (simp add: loop_E_def [of i' "loop_E i s"] listen_E_fields)
next
  assume "pumpPrimaryStatus (loop_E i s) \<noteq> 0"
  then have n: "pumpPrimaryStatus (listen_E i s) \<noteq> 0" by (simp add: loop_E_status)
  from animate_E_clock [OF n, of i]
  show "lastAnimationTime (loop_E i s) =
          (if word_of_int (animationSpeedDelay (loop_E i s)) \<le> e_check i - lastAnimationTime s
           then e_stamp i else lastAnimationTime s)"
    by (simp add: loop_E_def listen_E_fields)
  from animate_E_frame [OF n, of i]
  show "led_writes (loop_E i s) =
            led_writes s @
            (if word_of_int (animationSpeedDelay (loop_E i s)) \<le> e_check i - lastAnimationTime s
             then map (\<lambda>c. (int c, nextLedState (if masterPosition s = - 1 then 0
                                                   else masterPosition s) ! c)) [0 ..< 16]
             else [])"
    by (simp add: loop_E_def listen_E_fields)
next
  show "animationSpeedDelay (loop_E i s) =
        (if pumpPrimaryStatus (loop_E i s) = 1 then 500
         else if pumpPrimaryStatus (loop_E i s) = 2 then 200
         else if pumpPrimaryStatus (loop_E i s) = 3 then 600
         else animationSpeedDelay s)"
    using animate_E_delay [of i "listen_E i s"]
    by (simp add: loop_E_def animate_E_status listen_E_fields)
next
  assume a: "(masterPosition s = - 1 \<or> (0 \<le> masterPosition s \<and> masterPosition s < NUM_LEDS))
        \<and> pumpPrimaryStatus (loop_E i s) \<noteq> 0
        \<and> pumpPrimaryStatus (loop_E i' (loop_E i s)) \<noteq> 0
        \<and> word_of_int (animationSpeedDelay (loop_E i s)) \<le> e_check i - lastAnimationTime s"
  define s1 where "s1 = loop_E i s"
  have p: "pos_ok s" using a by (simp add: pos_ok_def)
  have n: "pumpPrimaryStatus (listen_E i s) \<noteq> 0" using a by (simp add: loop_E_status)
  have n': "pumpPrimaryStatus (listen_E i' s1) \<noteq> 0" using a by (simp add: loop_E_status s1_def)
  have el: "word_of_int (animationSpeedDelay (animate_E i (listen_E i s)))
              \<le> e_check i - lastAnimationTime (listen_E i s)"
    using a by (simp add: loop_E_def listen_E_fields)
  have c1: "lastAnimationTime s1 = e_stamp i"
    using animate_E_clock [OF n, of i] el by (simp add: s1_def loop_E_def)
  have p1: "pos_ok s1" unfolding s1_def using p by (rule pos_ok_loop_E)
  have pl: "pos_ok (listen_E i s)" using p by (simp add: pos_ok_def listen_E_fields)
  have "masterPosition s1 \<noteq> - 1"
    using animate_E_on [OF n pl, of i] el pl
    by (auto simp: s1_def loop_E_def Let_def pos_ok_def NUM_LEDS_def)
  then have b: "0 \<le> masterPosition s1 \<and> masterPosition s1 < NUM_LEDS"
    using p1 by (simp add: pos_ok_def)
  have p1': "pos_ok (listen_E i' s1)" using p1 by (simp add: pos_ok_def listen_E_fields)
  have "masterPosition (loop_E i' s1) =
          (if word_of_int (animationSpeedDelay (loop_E i' s1)) \<le> e_check i' - e_stamp i
           then (if masterPosition s1 + 1 = NUM_LEDS then 0 else masterPosition s1 + 1)
           else masterPosition s1)"
    using animate_E_on [OF n' p1', of i'] b \<open>masterPosition s1 \<noteq> - 1\<close> c1
    by (simp add: loop_E_def [of i' s1] listen_E_fields Let_def)
  then show "masterPosition (loop_E i' (loop_E i s)) =
          (if word_of_int (animationSpeedDelay (loop_E i' (loop_E i s))) \<le> e_check i' - e_stamp i
           then (if masterPosition (loop_E i s) + 1 = NUM_LEDS then 0
                 else masterPosition (loop_E i s) + 1)
           else masterPosition (loop_E i s))"
    by (simp add: s1_def)
  have "lastAnimationTime (loop_E i' s1) =
          (if word_of_int (animationSpeedDelay (loop_E i' s1)) \<le> e_check i' - e_stamp i
           then e_stamp i' else e_stamp i)"
    using animate_E_clock [OF n', of i'] c1
    by (simp add: loop_E_def [of i' s1] listen_E_fields)
  then show "lastAnimationTime (loop_E i' (loop_E i s)) =
          (if word_of_int (animationSpeedDelay (loop_E i' (loop_E i s))) \<le> e_check i' - e_stamp i
           then e_stamp i' else e_stamp i)"
    by (simp add: s1_def)
qed

theorem master_position_cycles_witness:
  "masterPosition (loop_E (quiet_e 1000) at_last_led) = 0
   \<and> masterPosition (loop_E (quiet_e 100) at_last_led) = 15
   \<and> masterPosition (loop_E (line_e ''<pump1:0;>'' 4300) at_last_led) = - 1
   \<and> led_writes (loop_E (line_e ''<pump1:0;>'' 4300) at_last_led)
       = map (\<lambda>c. (int c, 0)) [0 ..< 16]
   \<and> led_writes (loop_E (quiet_e 4310) (loop_E (line_e ''<pump1:0;>'' 4300) at_last_led))
       = led_writes (loop_E (line_e ''<pump1:0;>'' 4300) at_last_led)
   \<and> map masterPosition (run_E init_esp_e [quiet_e 5, line_e ''<pump1:2;>'' 1000, quiet_e 1100])
       = [- 1, 1, 1]
   \<and> lastAnimationTime (loop_E (quiet_e 1000) at_last_led) = 1000
   \<and> lastAnimationTime (loop_E (quiet_e 100) at_last_led) = 0
   \<and> masterPosition (loop_E (quiet_e 1010) (loop_E (quiet_e 1000) at_last_led)) = 0
   \<and> lastAnimationTime (loop_E (quiet_e 1010) (loop_E (quiet_e 1000) at_last_led)) = 1000
   \<and> masterPosition (loop_E (quiet_e 1200) (loop_E (quiet_e 1000) at_last_led)) = 1
   \<and> lastAnimationTime (loop_E (quiet_e 1200) (loop_E (quiet_e 1000) at_last_led)) = 1200"
proof -
  have s: "masterPosition at_last_led = 15" "lastAnimationTime at_last_led = 0"
    "led_writes at_last_led = []"
    by (simp_all add: at_last_led_def init_esp_e_def)
  have st: "pumpPrimaryStatus (loop_E (quiet_e 1000) at_last_led) \<noteq> 0"
    "animationSpeedDelay (loop_E (quiet_e 1000) at_last_led) = 200"
    "pumpPrimaryStatus (loop_E (quiet_e 100) at_last_led) \<noteq> 0"
    "animationSpeedDelay (loop_E (quiet_e 100) at_last_led) = 200"
    by code_simp+
  have st2: "pumpPrimaryStatus (loop_E (quiet_e 1010) (loop_E (quiet_e 1000) at_last_led)) \<noteq> 0"
    "animationSpeedDelay (loop_E (quiet_e 1010) (loop_E (quiet_e 1000) at_last_led)) = 200"
    "pumpPrimaryStatus (loop_E (quiet_e 1200) (loop_E (quiet_e 1000) at_last_led)) \<noteq> 0"
    "animationSpeedDelay (loop_E (quiet_e 1200) (loop_E (quiet_e 1000) at_last_led)) = 200"
    by code_simp+
  have q: "e_check (quiet_e t) = t" "e_stamp (quiet_e t) = t" for t
    by (simp_all add: quiet_e_def)
  note T1 = master_position_cycles [of "[]" at_last_led "quiet_e 1000" "quiet_e 1010"]
  have w1: "masterPosition (loop_E (quiet_e 1000) at_last_led) = 0"
    using T1 s st by (simp add: q Let_def)
  have w7: "lastAnimationTime (loop_E (quiet_e 1000) at_last_led) = 1000"
    using T1 s st by (simp add: q)
  have w9: "masterPosition (loop_E (quiet_e 1010) (loop_E (quiet_e 1000) at_last_led)) = 0"
    using T1 s st st2 w1 by (simp add: q)
  have w10: "lastAnimationTime (loop_E (quiet_e 1010) (loop_E (quiet_e 1000) at_last_led)) = 1000"
    using T1 s st st2 by (simp add: q)
  note T2 = master_position_cycles [of "[]" at_last_led "quiet_e 100"]
  have w2: "masterPosition (loop_E (quiet_e 100) at_last_led) = 15"
    using T2 s st by (simp add: q Let_def)
  have w8: "lastAnimationTime (loop_E (quiet_e 100) at_last_led) = 0"
    using T2 s st by (simp add: q)
  note T3 = master_position_cycles [of "[]" at_last_led "quiet_e 1000" "quiet_e 1200"]
  have w11: "masterPosition (loop_E (quiet_e 1200) (loop_E (quiet_e 1000) at_last_led)) = 1"
    using T3 s st st2 w1 by (simp add: q NUM_LEDS_def)
  have w12: "lastAnimationTime (loop_E (quiet_e 1200) (loop_E (quiet_e 1000) at_last_led)) = 1200"
    using T3 s st st2 by (simp add: q)
  let ?off = "line_e ''<pump1:0;>'' 4300"
  have o: "pumpPrimaryStatus (loop_E ?off at_last_led) = 0"
    "pumpPrimaryStatus (loop_E (quiet_e 4310) (loop_E ?off at_last_led)) = 0" by code_simp+
  note U = master_position_cycles [of "[]" at_last_led ?off "quiet_e 4310"]
  have w3: "masterPosition (loop_E ?off at_last_led) = - 1"
    using U o by blast
  have "led_writes (loop_E ?off at_last_led)
      = led_writes at_last_led @ (if masterPosition at_last_led \<noteq> - 1
                              then map (\<lambda>c. (int c, 0)) [0 ..< 16] else [])"
    using U o by blast
  then have w4: "led_writes (loop_E ?off at_last_led) = map (\<lambda>c. (int c, 0)) [0 ..< 16]"
    unfolding s by simp
  have w5: "led_writes (loop_E (quiet_e 4310) (loop_E ?off at_last_led))
       = led_writes (loop_E ?off at_last_led)"
    using U o by blast
  have r: "map masterPosition (run_E init_esp_e [quiet_e 5, line_e ''<pump1:2;>'' 1000, quiet_e 1100])
       = [- 1, 1, 1]"
    by code_simp
  from w1 w2 w3 w4 w5 r w7 w8 w9 w10 w11 w12 show ?thesis by blast
qed

end
